theory Spec2Isabelle
  imports Main
begin

section \<open>Strings and characters\<close>

text \<open>
  A Python \<open>str\<close> is a sequence of Unicode code points; a code point is modelled as a
  natural number and a string as a list of them.  \<open>lit\<close> turns an ASCII literal of the
  source into such a list.  The tables of the Unicode character database that the formatter
  reads through \<open>unicodedata\<close> and \<open>str.lower\<close> are not part of the repository; they
  are taken as a parameter \<open>U\<close> of every function that consults them.
\<close>

type_synonym pychar = nat
type_synonym pystr = "nat list"

definition lit :: "string \<Rightarrow> pystr" where
  "lit s = map of_char s"

record unicode_db =
  combining :: "pychar \<Rightarrow> int"
  east_asian_width :: "pychar \<Rightarrow> string"
  lower :: "pystr \<Rightarrow> pystr"

text \<open>The database restricted to ASCII text: no combining marks, no wide characters,
  \<open>A\<close>--\<open>Z\<close> lowered to \<open>a\<close>--\<open>z\<close>.  It agrees with Python on every ASCII string.\<close>

definition ascii_db :: unicode_db where
  "ascii_db = \<lparr> combining = (\<lambda>c. 0), east_asian_width = (\<lambda>c. ''Na''),
       lower = map (\<lambda>c. if 65 \<le> c \<and> c \<le> 90 then c + 32 else c) \<rparr>"

text \<open>\<open>str.isspace\<close> on one character: bidirectional class WS, B or S, or category Zs.\<close>

definition isspace :: "pychar \<Rightarrow> bool" where
  "isspace c \<longleftrightarrow> (9 \<le> c \<and> c \<le> 13) \<or> (28 \<le> c \<and> c \<le> 32) \<or> c = 133 \<or> c = 160
      \<or> c = 5760 \<or> (8192 \<le> c \<and> c \<le> 8202) \<or> c = 8232 \<or> c = 8233 \<or> c = 8239
      \<or> c = 8287 \<or> c = 12288"

definition lstrip :: "pystr \<Rightarrow> pystr" where
  "lstrip s = dropWhile isspace s"

definition rstrip :: "pystr \<Rightarrow> pystr" where
  "rstrip s = rev (dropWhile isspace (rev s))"

definition strip :: "pystr \<Rightarrow> pystr" where
  "strip s = lstrip (rstrip s)"

definition startswith :: "pystr \<Rightarrow> pystr \<Rightarrow> bool" where
  "startswith s p \<longleftrightarrow> take (length p) s = p"

definition endswith :: "pystr \<Rightarrow> pystr \<Rightarrow> bool" where
  "endswith s p \<longleftrightarrow> length p \<le> length s \<and> drop (length s - length p) s = p"

fun contains :: "pystr \<Rightarrow> pystr \<Rightarrow> bool" where
  "contains [] p = (p = [])"
| "contains (c # cs) p = (startswith (c # cs) p \<or> contains cs p)"

text \<open>\<open>str.splitlines\<close>: the line boundaries are \<open>\n\<close>, \<open>\r\<close>, \<open>\r\n\<close>, \<open>\v\<close>, \<open>\f\<close>,
  \<open>\x1c\<close>, \<open>\x1d\<close>, \<open>\x1e\<close>, \<open>\x85\<close>, U+2028 and U+2029; no empty last line is produced.\<close>

definition is_linebreak :: "pychar \<Rightarrow> bool" where
  "is_linebreak c \<longleftrightarrow> (10 \<le> c \<and> c \<le> 13) \<or> (28 \<le> c \<and> c \<le> 30) \<or> c = 133
      \<or> c = 8232 \<or> c = 8233"

fun splitlines_from :: "pystr \<Rightarrow> pystr \<Rightarrow> pystr list" where
  "splitlines_from cur [] = (if cur = [] then [] else [cur])"
| "splitlines_from cur [c] = (if is_linebreak c then [cur] else [cur @ [c]])"
| "splitlines_from cur (c # d # cs) =
     (if c = 13 \<and> d = 10 then cur # splitlines_from [] cs
      else if is_linebreak c then cur # splitlines_from [] (d # cs)
      else splitlines_from (cur @ [c]) (d # cs))"

definition splitlines :: "pystr \<Rightarrow> pystr list" where
  "splitlines s = splitlines_from [] s"

text \<open>\<open>sep.join(xs)\<close>.\<close>

fun join :: "pystr \<Rightarrow> pystr list \<Rightarrow> pystr" where
  "join sep [] = []"
| "join sep [x] = x"
| "join sep (x # y # ys) = x @ sep @ join sep (y # ys)"

text \<open>\<open>s.split(sep)\<close> for a separator of one character.\<close>

fun split_on :: "pychar \<Rightarrow> pystr \<Rightarrow> pystr list" where
  "split_on sep [] = [[]]"
| "split_on sep (c # cs) =
     (if c = sep then [] # split_on sep cs
      else (case split_on sep cs of f # fs \<Rightarrow> (c # f) # fs | [] \<Rightarrow> [[c]]))"

text \<open>\<open>s.strip(chars)\<close> for a set of one character.\<close>

definition strip_char :: "pychar \<Rightarrow> pystr \<Rightarrow> pystr" where
  "strip_char ch s = rev (dropWhile (\<lambda>c. c = ch) (rev (dropWhile (\<lambda>c. c = ch) s)))"

section \<open>Formatter core\<close>

definition vis_width :: "unicode_db \<Rightarrow> pystr \<Rightarrow> int" where
  "vis_width U s =
     fold (\<lambda>ch w. if combining U ch \<noteq> 0 then w
                   else w + (if east_asian_width U ch \<in> {''W'', ''F''} then 2 else 1)) s 0"

text \<open>The characters of \<open>WS_RE\<close> and of \<open>rstrip_ws\<close>: space, \<open>\t\<close>, \<open>\r\<close>, \<open>\f\<close>, \<open>\v\<close>.\<close>

definition is_ws :: "pychar \<Rightarrow> bool" where
  "is_ws c \<longleftrightarrow> c = 32 \<or> c = 9 \<or> c = 13 \<or> c = 12 \<or> c = 11"

text \<open>The exceptions that the formatter can raise.\<close>

datatype error = ValueError | IndexError | StopIteration | AssertionError | OverflowError

text \<open>\<open>" " * n\<close>: the count is converted to the index type of the interpreter
  (\<open>Py_ssize_t\<close>, 64 bits), and a count that does not fit raises \<open>OverflowError\<close>; a
  negative count gives the empty string.  Running out of memory while the string is built is
  outside the model.\<close>

definition index_sized :: "int \<Rightarrow> bool" where
  "index_sized n \<longleftrightarrow> - (2 ^ 63) \<le> n \<and> n < 2 ^ 63"

definition space_times :: "int \<Rightarrow> error + pystr" where
  "space_times n = (if index_sized n then Inr (replicate (nat n) 32) else Inl OverflowError)"

text \<open>The argument \<open>" " * tab_width\<close> is evaluated before \<open>replace\<close> is called, whether
  the string has a tab or not.\<close>

definition detab :: "pystr \<Rightarrow> int \<Rightarrow> error + pystr" where
  "detab s tab_width =
     (case space_times tab_width of
        Inl e \<Rightarrow> Inl e
      | Inr sp \<Rightarrow> Inr (concat (map (\<lambda>c. if c = 9 then sp else [c]) s)))"

definition rstrip_ws :: "pystr \<Rightarrow> pystr" where
  "rstrip_ws s = rev (dropWhile is_ws (rev s))"

definition sig_no_ws :: "pystr \<Rightarrow> pystr" where
  "sig_no_ws s = filter (\<lambda>c. \<not> is_ws c) s"

text \<open>The expression \<open>rstrip_ws(detab(s, tab_width))\<close>, which the source writes four
  times.\<close>

definition normalize_line :: "pystr \<Rightarrow> int \<Rightarrow> error + pystr" where
  "normalize_line s tab_width =
     (case detab s tab_width of
        Inl e \<Rightarrow> Inl e
      | Inr d \<Rightarrow> Inr (rstrip_ws d))"

text \<open>The loop over \<open>range(len(s) - 1)\<close>, with the quote flag and the index carried along.\<close>

fun find_comment_from :: "bool \<Rightarrow> nat \<Rightarrow> pystr \<Rightarrow> nat option" where
  "find_comment_from in_quote i (c # d # cs) =
     (if c = 34 then find_comment_from (\<not> in_quote) (i + 1) (d # cs)
      else if \<not> in_quote \<and> c = 47 \<and> d = 47 then Some i
      else find_comment_from in_quote (i + 1) (d # cs))"
| "find_comment_from in_quote i cs = None"

definition find_comment_pos_outside_quotes :: "pystr \<Rightarrow> nat option" where
  "find_comment_pos_outside_quotes s = find_comment_from False 0 s"

definition split_indent_key_rest :: "unicode_db \<Rightarrow> pystr \<Rightarrow> (pystr \<times> pystr \<times> pystr) option" where
  "split_indent_key_rest U code_part =
     (let indent = takeWhile isspace code_part;
          s1 = dropWhile isspace code_part
      in if s1 = [] then None
         else
           let key = takeWhile (\<lambda>c. \<not> isspace c) s1;
               rest_raw = dropWhile (\<lambda>c. \<not> isspace c) s1;
               rest = (if lower U key = lit ''echo'' then rest_raw
                       else dropWhile isspace rest_raw)
           in Some (indent, key, rest))"

definition split_two_quoted :: "pystr \<Rightarrow> (pystr \<times> pystr \<times> pystr) option" where
  "split_two_quoted rest =
     (case dropWhile isspace rest of
        [] \<Rightarrow> None
      | c # t \<Rightarrow>
          if c \<noteq> 34 then None
          else (case dropWhile (\<lambda>x. x \<noteq> 34) t of
                  [] \<Rightarrow> None
                | e # t1 \<Rightarrow>
                    let q1 = c # takeWhile (\<lambda>x. x \<noteq> 34) t @ [e] in
                    (case dropWhile isspace t1 of
                       [] \<Rightarrow> None
                     | c2 # t2 \<Rightarrow>
                         if c2 \<noteq> 34 then None
                         else (case dropWhile (\<lambda>x. x \<noteq> 34) t2 of
                                 [] \<Rightarrow> None
                               | e2 # tail \<Rightarrow>
                                   Some (q1, c2 # takeWhile (\<lambda>x. x \<noteq> 34) t2 @ [e2], tail)))))"

text \<open>The ratio test \<open>deco / max(1, len(body)) >= 0.60\<close> is a comparison of rationals here;
  the floating-point quotient decides it the same way for every body shorter than \<open>2^50\<close>
  characters.\<close>

definition is_separator_comment_line :: "pystr \<Rightarrow> bool" where
  "is_separator_comment_line txt =
     (let s = lstrip txt in
      if \<not> startswith s (lit ''//'') then False
      else
        let body = lstrip (drop 2 s) in
        if \<not> startswith body (lit ''+'') then False
        else if 42 \<in> set body then True
        else
          let deco = int (length (filter (\<lambda>c. c \<in> set (lit ''#-_=+|'')) body)) in
          10 * deco \<ge> 6 * max 1 (int (length body)) \<and> length body \<ge> 10)"

definition is_block_boundary_B :: "unicode_db \<Rightarrow> pystr \<Rightarrow> bool" where
  "is_block_boundary_B U txt =
     (let s = lower U (strip txt) in
      if s = [] then True
      else if s = lit ''echo;'' then True
      else if is_separator_comment_line txt then True
      else False)"


subsection \<open>Records, options and results\<close>

datatype kind = Boundary | Pass | Cmd

text \<open>A line record is a dictionary in the source.  The five token flds exist only in a
  record of kind \<open>Cmd\<close>; in the other kinds they are empty here and are never read.\<close>

record rec =
  kind :: kind
  orig :: pystr
  line :: pystr
  lineno :: nat
  indent :: pystr
  key :: pystr
  key_lower :: pystr
  rest :: pystr
  comment :: pystr

record FormatOptions =
  align_mode :: pystr
  tab_width :: int
  key_cap :: int
  comment_cap :: int
  special_align_keys :: "pystr set option"
  echo_align_tables :: bool

text \<open>The \<open>stats\<close> dictionary: its three fixed entries and the counters of \<open>inc\<close>, in
  insertion order.\<close>

record stats =
  total_lines :: nat
  stat_align_mode :: pystr
  stat_sig_fail_lines :: "nat list"
  counters :: "(string \<times> nat) list"

record FormatResult =
  out_text :: pystr
  changed :: bool
  sig_fail_lines :: "nat list"
  result_stats :: stats

definition SPECIAL_ALIGN_KEYS_DEFAULT :: "pystr set" where
  "SPECIAL_ALIGN_KEYS_DEFAULT = {lit ''bind'', lit ''alias''}"

fun bump :: "string \<Rightarrow> (string \<times> nat) list \<Rightarrow> (string \<times> nat) list" where
  "bump k [] = [(k, 1)]"
| "bump k ((k', v) # kvs) = (if k = k' then (k', v + 1) # kvs else (k', v) # bump k kvs)"

definition inc :: "string \<Rightarrow> stats \<Rightarrow> stats" where
  "inc k st = st\<lparr>counters := bump k (counters st)\<rparr>"

text \<open>\<open>" " * n\<close> for the paddings of the rendering.  Their counts are at most one more
  than the length of a code part or the display width of a field of the chunk, so they fit
  the index type for every string that the interpreter can hold, and the multiplication does
  not raise.\<close>

definition spaces :: "int \<Rightarrow> pystr" where
  "spaces n = replicate (nat n) 32"

definition len :: "pystr \<Rightarrow> int" where
  "len s = int (length s)"

text \<open>\<open>max(xs)\<close> of a list that the caller has found non-empty.\<close>

fun max_list :: "int list \<Rightarrow> int" where
  "max_list [] = 0"
| "max_list (x # xs) = fold max xs x"

subsection \<open>Alignment of one chunk\<close>

definition key_widths :: "rec list \<Rightarrow> int list" where
  "key_widths cmd_recs =
     map (\<lambda>r. len (indent r) + len (key r))
       (filter (\<lambda>r. kind r = Cmd \<and> rest r \<noteq> []) cmd_recs)"

definition max_key_of :: "rec list \<Rightarrow> int \<Rightarrow> int" where
  "max_key_of cmd_recs kcap =
     (let kw = key_widths cmd_recs in if kw \<noteq> [] then min (max_list kw) kcap else 0)"

definition q1_lens :: "pystr set \<Rightarrow> rec list \<Rightarrow> int list" where
  "q1_lens special cmd_recs =
     concat (map (\<lambda>r. if kind r \<noteq> Cmd \<or> rest r = [] then []
                       else if key_lower r \<notin> special then []
                       else (case split_two_quoted (rest r) of
                               Some (q1, q2, tail) \<Rightarrow> [len q1]
                             | None \<Rightarrow> [])) cmd_recs)"

definition max_q1_len_of :: "pystr set \<Rightarrow> rec list \<Rightarrow> int" where
  "max_q1_len_of special cmd_recs =
     (let ql = q1_lens special cmd_recs in if ql \<noteq> [] then max_list ql else 0)"

fun has_art_chunk :: "pystr \<Rightarrow> bool" where
  "has_art_chunk (c # d # cs) =
     ((c \<in> {95, 47, 92} \<and> d \<in> {95, 47, 92}) \<or> has_art_chunk (d # cs))"
| "has_art_chunk cs = False"

definition is_echo_table_candidate :: "bool \<Rightarrow> rec \<Rightarrow> bool" where
  "is_echo_table_candidate echo_tables r =
     (if \<not> echo_tables then False
      else if kind r \<noteq> Cmd then False
      else if comment r \<noteq> [] then False
      else if key_lower r \<noteq> lit ''echo'' then False
      else
        let body = strip (rest r) in
        if 124 \<notin> set body then False
        else if startswith body (lit ''~~~'') then False
        else if 12304 \<in> set body \<and> 12305 \<in> set body \<and> (42 \<in> set body \<or> 126 \<in> set body)
          then False
        else
          let pipe_cnt = int (count_list body 124);
              has_cjk = list_ex (\<lambda>c. 19968 \<le> c \<and> c \<le> 40959) body;
              has_alnum = list_ex (\<lambda>c. (65 \<le> c \<and> c \<le> 90) \<or> (97 \<le> c \<and> c \<le> 122)
                                          \<or> (48 \<le> c \<and> c \<le> 57)) body;
              art = has_art_chunk body
          in if \<not> has_cjk \<and> \<not> has_alnum \<and> pipe_cnt \<le> 3 then False
             else if \<not> has_cjk \<and> art \<and> pipe_cnt \<le> 2 then False
             else True)"

text \<open>the fields of an echo row and its two framing flags, as the first echo loop stores
  them in the record (\<open>_echo_fields\<close>, \<open>_echo_lead\<close>, \<open>_echo_trail\<close>); the rendering loop
  reads them back from the same, unchanged \<open>rest\<close>.\<close>

definition echo_parse :: "pystr \<Rightarrow> pystr list \<times> bool \<times> bool" where
  "echo_parse rst =
     (let body = strip rst;
          leading_pipe = startswith body (lit ''|'');
          trailing_pipe = endswith body (lit ''|'');
          core = (if leading_pipe \<or> trailing_pipe then strip_char 124 body else body);
          flds = map strip (split_on 124 core)
      in (flds, leading_pipe, trailing_pipe))"

definition echo_rows :: "bool \<Rightarrow> rec list \<Rightarrow> pystr list list" where
  "echo_rows echo_tables cmd_recs =
     concat (map (\<lambda>r. if \<not> is_echo_table_candidate echo_tables r then []
                       else (case echo_parse (rest r) of
                               (flds, lead, trail) \<Rightarrow>
                                 if \<not> (lead \<or> trail) then [flds] else [])) cmd_recs)"

text \<open>\<open>echo_col_widths[i] = max(echo_col_widths[i], vis_width(f))\<close>: an index outside the
  list raises \<open>IndexError\<close>.\<close>

fun widths_row :: "unicode_db \<Rightarrow> nat \<Rightarrow> pystr list \<Rightarrow> int list \<Rightarrow> error + int list" where
  "widths_row U i [] ws = Inr ws"
| "widths_row U i (f # fs) ws =
     (if i < length ws then widths_row U (i + 1) fs (ws[i := max (ws ! i) (vis_width U f)])
      else Inl IndexError)"

fun widths_rows :: "unicode_db \<Rightarrow> pystr list list \<Rightarrow> int list \<Rightarrow> error + int list" where
  "widths_rows U [] ws = Inr ws"
| "widths_rows U (flds # rows) ws =
     (case widths_row U 0 flds ws of
        Inl e \<Rightarrow> Inl e
      | Inr ws' \<Rightarrow> widths_rows U rows ws')"

definition echo_col_widths_of :: "unicode_db \<Rightarrow> pystr list list \<Rightarrow> error + int list" where
  "echo_col_widths_of U rows =
     (let max_cols = fold (\<lambda>flds m. max m (length flds)) rows 0 in
      if rows \<noteq> [] \<and> max_cols > 0 then widths_rows U rows (replicate max_cols 0)
      else Inr [])"

fun pad_fields :: "unicode_db \<Rightarrow> int list \<Rightarrow> nat \<Rightarrow> pystr list \<Rightarrow> pystr list" where
  "pad_fields U widths i [] = []"
| "pad_fields U widths i (f # fs) =
     (let w = (if i < length widths then widths ! i else vis_width U f)
      in (f @ spaces (max 0 (w - vis_width U f))) # pad_fields U widths (i + 1) fs)"

text \<open>The body of the rendering loop for one record: the formatted code (\<open>None\<close> for a
  record that is not a command) and the counter that the iteration increments.\<close>

definition code_fmt_of ::
  "unicode_db \<Rightarrow> pystr set \<Rightarrow> bool \<Rightarrow> int \<Rightarrow> int \<Rightarrow> int list \<Rightarrow> rec
     \<Rightarrow> pystr option \<times> string option" where
  "code_fmt_of U special echo_tables value_col second_col widths r =
     (if kind r \<noteq> Cmd then (None, None)
      else if key_lower r = lit ''echo'' then
        (if is_echo_table_candidate echo_tables r \<and> widths \<noteq> [] then
           (case echo_parse (rest r) of
              (flds, lead, trail) \<Rightarrow>
                let body_fmt =
                  (if lead \<or> trail then
                     (if lead then lit ''| '' else []) @ strip (join (lit '' | '') flds)
                       @ (if trail then lit '' |'' else [])
                   else rstrip (join (lit '' | '') (pad_fields U widths 0 flds)))
                in (Some (indent r @ key r @ lit '' '' @ body_fmt), Some ''echo_table_aligned''))
         else (Some (if rest r = [] then indent r @ key r else indent r @ key r @ rest r), None))
      else if rest r = [] then (Some (indent r @ key r), Some ''cmd_no_rest'')
      else
        let left_len = len (indent r) + len (key r);
            pad1 = max 1 (value_col - left_len);
            twoq = (if key_lower r \<in> special then split_two_quoted (rest r) else None)
        in (case twoq of
              Some (q1, q2, tail) \<Rightarrow>
                let cur_after_q1 = left_len + pad1 + len q1;
                    pad2 = max 1 (second_col - cur_after_q1)
                in (Some (indent r @ key r @ spaces pad1 @ q1 @ spaces pad2 @ q2 @ tail),
                    Some ''special_two_quote_aligned'')
            | None \<Rightarrow>
                (Some (indent r @ key r @ spaces pad1 @ rest r), Some ''cmd_value_aligned'')))"

definition code_lens_for_comment :: "(rec \<times> pystr option) list \<Rightarrow> int list" where
  "code_lens_for_comment rfs =
     concat (map (\<lambda>(r, cf). case cf of
                               Some code_fmt \<Rightarrow> if comment r \<noteq> [] then [len code_fmt] else []
                             | None \<Rightarrow> []) rfs)"

definition comment_target_of :: "int list \<Rightarrow> int \<Rightarrow> int option" where
  "comment_target_of lens ccap = (if lens \<noteq> [] then Some (min (max_list lens) ccap) else None)"

text \<open>The signature guard of the rendering loop, written twice there: a line whose
  signature differs from the original's is replaced by \<open>normalized_orig\<close>, which the loop
  has computed at the top of the iteration, and the line number is appended to
  \<open>stats["sig_fail_lines"]\<close>.\<close>

definition sig_guard :: "pystr \<Rightarrow> rec \<Rightarrow> pystr \<Rightarrow> stats \<Rightarrow> pystr \<times> stats" where
  "sig_guard normalized_orig r new_line st =
     (if sig_no_ws (orig r) \<noteq> sig_no_ws new_line
      then (normalized_orig,
            st\<lparr>stat_sig_fail_lines := stat_sig_fail_lines st @ [lineno r]\<rparr>)
      else (new_line, st))"

definition with_comment :: "int option \<Rightarrow> rec \<Rightarrow> pystr \<Rightarrow> stats \<Rightarrow> pystr \<times> stats" where
  "with_comment target r code_fmt st =
     (if comment r \<noteq> [] then
        (case target of
           Some t \<Rightarrow>
             if len code_fmt \<le> t
             then (code_fmt @ spaces (max 1 ((t + 1) - len code_fmt)) @ comment r,
                   inc ''comment_aligned'' st)
             else (code_fmt @ lit '' '' @ comment r, st)
         | None \<Rightarrow> (code_fmt @ lit '' '' @ comment r, st))
      else (code_fmt, st))"

fun emit_lines ::
  "int \<Rightarrow> int option \<Rightarrow> (rec \<times> pystr option) list \<Rightarrow> stats \<Rightarrow> error + (pystr list \<times> stats)" where
  "emit_lines tw target [] st = Inr ([], st)"
| "emit_lines tw target ((r, cf) # rfs) st =
     (case normalize_line (orig r) tw of
        Inl e \<Rightarrow> Inl e
      | Inr normalized_orig \<Rightarrow>
          if kind r \<noteq> Cmd then
            (case sig_guard normalized_orig r (line r) st of
               (new_line, st') \<Rightarrow>
                 (case emit_lines tw target rfs st' of
                    Inl e \<Rightarrow> Inl e
                  | Inr (out, st'') \<Rightarrow> Inr (new_line # out, st'')))
          else
            (case cf of
               None \<Rightarrow> Inl AssertionError
             | Some code_fmt \<Rightarrow>
                 (case with_comment target r code_fmt st of
                    (rendered, st1) \<Rightarrow>
                      (case normalize_line rendered tw of
                         Inl e \<Rightarrow> Inl e
                       | Inr stripped \<Rightarrow>
                           (case sig_guard normalized_orig r stripped st1 of
                              (new_line, st') \<Rightarrow>
                                (case emit_lines tw target rfs st' of
                                   Inl e \<Rightarrow> Inl e
                                 | Inr (out, st'') \<Rightarrow> Inr (new_line # out, st'')))))))"

definition count_incs :: "string option list \<Rightarrow> stats \<Rightarrow> stats" where
  "count_incs ks st = fold (\<lambda>k s. case k of Some c \<Rightarrow> inc c s | None \<Rightarrow> s) ks st"

definition format_cmd_lines ::
  "unicode_db \<Rightarrow> rec list \<Rightarrow> int \<Rightarrow> int \<Rightarrow> int \<Rightarrow> pystr set \<Rightarrow> bool \<Rightarrow> stats
     \<Rightarrow> error + (pystr list \<times> stats)" where
  "format_cmd_lines U cmd_recs kcap ccap tw special echo_tables st =
     (let max_key = max_key_of cmd_recs kcap;
          value_col = max_key + 1;
          max_q1_len = max_q1_len_of special cmd_recs;
          second_col = value_col + max_q1_len + 1
      in case echo_col_widths_of U (echo_rows echo_tables cmd_recs) of
           Inl e \<Rightarrow> Inl e
         | Inr widths \<Rightarrow>
             let fmts = map (code_fmt_of U special echo_tables value_col second_col widths) cmd_recs;
                 code_fmts = map fst fmts;
                 st1 = count_incs (map snd fmts) st;
                 target = comment_target_of (code_lens_for_comment (zip cmd_recs code_fmts)) ccap
             in emit_lines tw target (zip cmd_recs code_fmts) st1)"

subsection \<open>The driver\<close>

definition plain_rec :: "kind \<Rightarrow> pystr \<Rightarrow> pystr \<Rightarrow> nat \<Rightarrow> rec" where
  "plain_rec k orig_line norm_line i =
     \<lparr> kind = k, orig = orig_line, line = norm_line, lineno = i,
       indent = [], key = [], key_lower = [], rest = [], comment = [] \<rparr>"

text \<open>The body of the pre-parse loop of \<open>format_text\<close>: the record of line \<open>i\<close>.\<close>

definition classify :: "unicode_db \<Rightarrow> FormatOptions \<Rightarrow> nat \<Rightarrow> pystr \<Rightarrow> error + rec" where
  "classify U opts i orig_line =
     (case normalize_line orig_line (tab_width opts) of
        Inl e \<Rightarrow> Inl e
      | Inr norm_line \<Rightarrow>
          Inr (if align_mode opts = lit ''block'' \<and> is_block_boundary_B U norm_line
                 then plain_rec Boundary orig_line norm_line i
               else if startswith (lstrip norm_line) (lit ''//'')
                 then plain_rec Pass orig_line norm_line i
               else if strip norm_line = []
                 then plain_rec Boundary orig_line norm_line i
               else
                 let (code_part, comment_part) =
                       (case find_comment_pos_outside_quotes norm_line of
                          None \<Rightarrow> (norm_line, [])
                        | Some cpos \<Rightarrow> (rstrip_ws (take cpos norm_line), drop cpos norm_line))
                 in (case split_indent_key_rest U code_part of
                       None \<Rightarrow> plain_rec Pass orig_line norm_line i
                     | Some (ind, k, rst) \<Rightarrow>
                         \<lparr> kind = Cmd, orig = orig_line, line = norm_line, lineno = i,
                           indent = ind, key = k, key_lower = lower U k, rest = rst,
                           comment = comment_part \<rparr>)))"

text \<open>The pre-parse loop over \<open>enumerate(lines, start=1)\<close>: it stops at the first line
  whose iteration raises.\<close>

fun parse_from :: "unicode_db \<Rightarrow> FormatOptions \<Rightarrow> nat \<Rightarrow> pystr list \<Rightarrow> error + rec list" where
  "parse_from U opts i [] = Inr []"
| "parse_from U opts i (orig_line # lns) =
     (case classify U opts i orig_line of
        Inl e \<Rightarrow> Inl e
      | Inr r \<Rightarrow>
          (case parse_from U opts (Suc i) lns of
             Inl e \<Rightarrow> Inl e
           | Inr recs \<Rightarrow> Inr (r # recs)))"

definition parse_lines :: "unicode_db \<Rightarrow> FormatOptions \<Rightarrow> pystr list \<Rightarrow> error + rec list" where
  "parse_lines U opts lns = parse_from U opts 1 lns"

text \<open>\<open>handle_boundary\<close> has the guard once more; it normalizes the original only when
  the guard fires, after the line number has been recorded.\<close>

definition handle_boundary ::
  "int \<Rightarrow> rec \<Rightarrow> pystr list \<times> stats \<Rightarrow> error + (pystr list \<times> stats)" where
  "handle_boundary tw r acc =
     (case acc of (out_lines, st) \<Rightarrow>
        if sig_no_ws (orig r) \<noteq> sig_no_ws (line r) then
          (case normalize_line (orig r) tw of
             Inl e \<Rightarrow> Inl e
           | Inr normalized_orig \<Rightarrow>
               Inr (out_lines @ [normalized_orig],
                    st\<lparr>stat_sig_fail_lines := stat_sig_fail_lines st @ [lineno r]\<rparr>))
        else Inr (out_lines @ [line r], st))"

definition effective_special_keys :: "FormatOptions \<Rightarrow> pystr set" where
  "effective_special_keys opts =
     (case special_align_keys opts of
        None \<Rightarrow> SPECIAL_ALIGN_KEYS_DEFAULT
      | Some ks \<Rightarrow> if ks = {} then SPECIAL_ALIGN_KEYS_DEFAULT else ks)"

definition format_chunk ::
  "unicode_db \<Rightarrow> FormatOptions \<Rightarrow> rec list \<Rightarrow> stats \<Rightarrow> error + (pystr list \<times> stats)" where
  "format_chunk U opts chunk st =
     format_cmd_lines U chunk (key_cap opts) (comment_cap opts) (tab_width opts)
       (effective_special_keys opts) (echo_align_tables opts) st"

text \<open>Global mode: the loop that takes the boundary lines from \<open>handle_boundary\<close> and the
  others from the iterator over the formatted chunk.\<close>

fun reassemble ::
  "int \<Rightarrow> rec list \<Rightarrow> pystr list \<Rightarrow> pystr list \<times> stats \<Rightarrow> error + (pystr list \<times> stats)" where
  "reassemble tw [] it acc = Inr acc"
| "reassemble tw (r # rs) it acc =
     (if kind r = Boundary then
        (case handle_boundary tw r acc of
           Inl e \<Rightarrow> Inl e
         | Inr acc' \<Rightarrow> reassemble tw rs it acc')
      else (case it of
              [] \<Rightarrow> Inl StopIteration
            | x # it' \<Rightarrow> reassemble tw rs it' (fst acc @ [x], snd acc)))"

text \<open>Block mode: the loop over the records with the pending block, and the final flush.\<close>

fun block_loop ::
  "unicode_db \<Rightarrow> FormatOptions \<Rightarrow> rec list \<Rightarrow> rec list \<Rightarrow> pystr list \<times> stats
     \<Rightarrow> error + (rec list \<times> pystr list \<times> stats)" where
  "block_loop U opts [] block acc = Inr (block, acc)"
| "block_loop U opts (r # rs) block acc =
     (if kind r = Boundary then
        (if block \<noteq> [] then
           (case format_chunk U opts block (snd acc) of
              Inl e \<Rightarrow> Inl e
            | Inr (ls, st') \<Rightarrow>
                (case handle_boundary (tab_width opts) r (fst acc @ ls, st') of
                   Inl e \<Rightarrow> Inl e
                 | Inr acc' \<Rightarrow> block_loop U opts rs [] acc'))
         else
           (case handle_boundary (tab_width opts) r acc of
              Inl e \<Rightarrow> Inl e
            | Inr acc' \<Rightarrow> block_loop U opts rs block acc'))
      else block_loop U opts rs (block @ [r]) acc)"

definition initial_stats :: "pystr list \<Rightarrow> FormatOptions \<Rightarrow> stats" where
  "initial_stats lns opts =
     \<lparr> total_lines = length lns, stat_align_mode = align_mode opts,
       stat_sig_fail_lines = [], counters = [] \<rparr>"

definition format_lines ::
  "unicode_db \<Rightarrow> pystr \<Rightarrow> FormatOptions \<Rightarrow> error + (pystr list \<times> stats)" where
  "format_lines U raw_text opts =
     (let lns = splitlines raw_text;
          st0 = initial_stats lns opts
      in case parse_lines U opts lns of
           Inl e \<Rightarrow> Inl e
         | Inr recs \<Rightarrow>
             if align_mode opts = lit ''global'' then
               (case format_chunk U opts (filter (\<lambda>r. kind r \<noteq> Boundary) recs) st0 of
                  Inl e \<Rightarrow> Inl e
                | Inr (formatted, st1) \<Rightarrow> reassemble (tab_width opts) recs formatted ([], st1))
             else if align_mode opts = lit ''block'' then
               (case block_loop U opts recs [] ([], st0) of
                  Inl e \<Rightarrow> Inl e
                | Inr (block, out_lines, st1) \<Rightarrow>
                    if block \<noteq> [] then
                      (case format_chunk U opts block st1 of
                         Inl e \<Rightarrow> Inl e
                       | Inr (ls, st2) \<Rightarrow> Inr (out_lines @ ls, st2))
                    else Inr (out_lines, st1))
             else Inl ValueError)"

definition newline_of :: "pystr \<Rightarrow> pystr" where
  "newline_of raw_text = (if contains raw_text [13, 10] then [13, 10] else [10])"

definition keep_final_newline :: "pystr \<Rightarrow> bool" where
  "keep_final_newline raw_text \<longleftrightarrow> endswith raw_text [10] \<or> endswith raw_text [13, 10]"

definition assemble :: "pystr \<Rightarrow> pystr list \<Rightarrow> pystr" where
  "assemble raw_text out_lines =
     join (newline_of raw_text) out_lines
       @ (if keep_final_newline raw_text then newline_of raw_text else [])"

definition format_text :: "unicode_db \<Rightarrow> pystr \<Rightarrow> FormatOptions \<Rightarrow> error + FormatResult" where
  "format_text U raw_text opts =
     (case format_lines U raw_text opts of
        Inl e \<Rightarrow> Inl e
      | Inr (out_lines, st) \<Rightarrow>
          let text = assemble raw_text out_lines
          in Inr \<lparr> out_text = text, changed = (text \<noteq> raw_text),
                   sig_fail_lines = stat_sig_fail_lines st, result_stats = st \<rparr>)"

subsection \<open>What one pass emits\<close>

text \<open>\<open>emitted tw rs outs fl\<close>: the lines \<open>outs\<close> are what the signature guard lets through
  for the records \<open>rs\<close>, and \<open>fl\<close> are the line numbers it records, in order.  A line is
  either accepted with the signature of its original (a line that is not a command is then
  its normalized text), or replaced by the normalized original and recorded.\<close>

inductive emitted :: "int \<Rightarrow> rec list \<Rightarrow> pystr list \<Rightarrow> nat list \<Rightarrow> bool" for tw where
  emitted_Nil: "emitted tw [] [] []"
| emitted_pass: "sig_no_ws out = sig_no_ws (orig r) \<Longrightarrow> kind r = Cmd \<or> out = line r
     \<Longrightarrow> emitted tw rs outs fl
     \<Longrightarrow> emitted tw (r # rs) (out # outs) fl"
| emitted_fail: "normalize_line (orig r) tw = Inr n
     \<Longrightarrow> kind r = Cmd \<or> sig_no_ws (line r) \<noteq> sig_no_ws (orig r)
     \<Longrightarrow> emitted tw rs outs fl
     \<Longrightarrow> emitted tw (r # rs) (n # outs) (lineno r # fl)"

text \<open>The options of \<open>FormatOptions()\<close>.\<close>

definition default_options :: FormatOptions where
  "default_options = \<lparr> align_mode = lit ''global'', tab_width = 4, key_cap = 40,
      comment_cap = 90, special_align_keys = None, echo_align_tables = True \<rparr>"

text \<open>A sample text of three lines: a comment line, a command line, and a command line
  with a no-break space, which the signature guard sends back.\<close>

definition sample_text :: pystr where
  "sample_text = lit ''// c '' @ [10] @ lit ''a  b'' @ [10] @ lit ''c'' @ [160] @ lit ''d''"

definition sample_recs :: "rec list" where
  "sample_recs =
     [plain_rec Pass (lit ''// c '') (lit ''// c'') 1,
      \<lparr> kind = Cmd, orig = lit ''a  b'', line = lit ''a  b'', lineno = 2,
        indent = [], key = lit ''a'', key_lower = lit ''a'', rest = lit ''b'', comment = [] \<rparr>,
      \<lparr> kind = Cmd, orig = lit ''c'' @ [160] @ lit ''d'', line = lit ''c'' @ [160] @ lit ''d'',
        lineno = 3, indent = [], key = lit ''c'', key_lower = lit ''c'', rest = lit ''d'',
        comment = [] \<rparr>]"

definition sample_result :: FormatResult where
  "sample_result =
     \<lparr> out_text = lit ''// c'' @ [10] @ lit ''a b'' @ [10] @ lit ''c'' @ [160] @ lit ''d'',
       changed = True, sig_fail_lines = [3],
       result_stats = \<lparr> total_lines = 3, stat_align_mode = lit ''global'',
         stat_sig_fail_lines = [3], counters = [(''cmd_value_aligned'', 2)] \<rparr> \<rparr>"

text \<open>The record of the line \<open>bind x\<close>.\<close>

definition bind_x_rec :: rec where
  "bind_x_rec = \<lparr> kind = Cmd, orig = lit ''bind x'', line = lit ''bind x'', lineno = 1,
      indent = [], key = lit ''bind'', key_lower = lit ''bind'', rest = lit ''x'', comment = [] \<rparr>"

text \<open>The number of decorative characters of a banner body.\<close>

definition deco_count :: "pystr \<Rightarrow> nat" where
  "deco_count body = length (filter (\<lambda>c. c \<in> set (lit ''#-_=+|'')) body)"

text \<open>The block boundary predicate as the specification words it, for a normalized line:
  the line is empty, or is \<open>echo;\<close> up to case and surrounding whitespace, or is a
  decorative comment banner.\<close>

definition spec_block_boundary :: "unicode_db \<Rightarrow> pystr \<Rightarrow> bool" where
  "spec_block_boundary U txt \<longleftrightarrow>
     txt = []
     \<or> lower U (strip txt) = lit ''echo;''
     \<or> (startswith (lstrip txt) (lit ''//'')
         \<and> startswith (lstrip (drop 2 (lstrip txt))) (lit ''+'')
         \<and> (42 \<in> set (lstrip (drop 2 (lstrip txt)))
            \<or> (10 \<le> length (lstrip (drop 2 (lstrip txt)))
               \<and> 6 * length (lstrip (drop 2 (lstrip txt)))
                    \<le> 10 * deco_count (lstrip (drop 2 (lstrip txt))))))"



text \<open>A text whose last line is ended by a form feed, with its records and its result.\<close>

definition ff_text :: pystr where
  "ff_text = lit ''a'' @ [10, 12]"

definition ff_recs :: "rec list" where
  "ff_recs =
     [\<lparr> kind = Cmd, orig = lit ''a'', line = lit ''a'', lineno = 1,
        indent = [], key = lit ''a'', key_lower = lit ''a'', rest = [], comment = [] \<rparr>,
      plain_rec Boundary [] [] 2]"

definition ff_result :: FormatResult where
  "ff_result =
     \<lparr> out_text = lit ''a'' @ [10], changed = True, sig_fail_lines = [],
       result_stats = \<lparr> total_lines = 2, stat_align_mode = lit ''global'',
         stat_sig_fail_lines = [], counters = [(''cmd_no_rest'', 1)] \<rparr> \<rparr>"

text \<open>A command line with a no-break space between key and value, with its record and its
  result.\<close>

definition nbsp_text :: pystr where
  "nbsp_text = lit ''c'' @ [160] @ lit ''d''"

definition nbsp_recs :: "rec list" where
  "nbsp_recs =
     [\<lparr> kind = Cmd, orig = nbsp_text, line = nbsp_text, lineno = 1,
        indent = [], key = lit ''c'', key_lower = lit ''c'', rest = lit ''d'', comment = [] \<rparr>]"

definition nbsp_result :: FormatResult where
  "nbsp_result =
     \<lparr> out_text = nbsp_text, changed = False, sig_fail_lines = [1],
       result_stats = \<lparr> total_lines = 1, stat_align_mode = lit ''global'',
         stat_sig_fail_lines = [1], counters = [(''cmd_value_aligned'', 1)] \<rparr> \<rparr>"

section \<open>Properties\<close>

lemma sig_no_ws_append: "sig_no_ws (a @ b) = sig_no_ws a @ sig_no_ws b"
  by (simp add: sig_no_ws_def)

lemma sig_no_ws_rstrip_ws: "sig_no_ws (rstrip_ws s) = sig_no_ws s"
proof -
  have "filter (\<lambda>c. \<not> is_ws c) (dropWhile is_ws xs) = filter (\<lambda>c. \<not> is_ws c) xs" for xs
    by (induction xs) auto
  then have "filter (\<lambda>c. \<not> is_ws c) (rev (dropWhile is_ws (rev s))) = filter (\<lambda>c. \<not> is_ws c) s"
    by (metis rev_filter rev_rev_ident)
  then show ?thesis by (simp add: sig_no_ws_def rstrip_ws_def)
qed

lemma normalize_Inr_iff:
  "normalize_line s tw = Inr n \<longleftrightarrow>
     index_sized tw
     \<and> n = rstrip_ws (concat (map (\<lambda>c. if c = 9 then replicate (nat tw) 32 else [c]) s))"
  by (auto simp: normalize_line_def detab_def space_times_def)

lemma normalize_Inl_iff: "normalize_line s tw = Inl e \<longleftrightarrow> \<not> index_sized tw \<and> e = OverflowError"
  by (auto simp: normalize_line_def detab_def space_times_def)

lemma normalize_total: "index_sized tw \<Longrightarrow> \<exists>n. normalize_line s tw = Inr n"
  by (simp add: normalize_Inr_iff)

lemma sig_no_ws_detab: "detab s tw = Inr d \<Longrightarrow> sig_no_ws d = sig_no_ws s"
proof -
  have "sig_no_ws (concat (map (\<lambda>c. if c = 9 then replicate k 32 else [c]) s)) = sig_no_ws s" for k
    by (induction s) (auto simp: sig_no_ws_def is_ws_def)
  moreover assume "detab s tw = Inr d"
  ultimately show ?thesis by (auto simp: detab_def space_times_def split: if_splits)
qed

lemma sig_no_ws_normalize: "normalize_line s tw = Inr n \<Longrightarrow> sig_no_ws n = sig_no_ws s"
  by (auto simp: normalize_line_def sig_no_ws_rstrip_ws sig_no_ws_detab split: sum.splits)

lemma emitted_append:
  "emitted tw rs outs fl \<Longrightarrow> emitted tw rs' outs' fl' \<Longrightarrow> emitted tw (rs @ rs') (outs @ outs') (fl @ fl')"
  by (induction rule: emitted.induct) (auto intro: emitted.intros)

lemma emitted_length: "emitted tw rs outs fl \<Longrightarrow> length outs = length rs"
  by (induction rule: emitted.induct) auto

lemma emitted_fails_subset: "emitted tw rs outs fl \<Longrightarrow> set fl \<subseteq> lineno ` set rs"
  by (induction rule: emitted.induct) auto

lemma emitted_sig:
  "emitted tw rs outs fl \<Longrightarrow> i < length rs \<Longrightarrow> sig_no_ws (outs ! i) = sig_no_ws (orig (rs ! i))"
proof (induction arbitrary: i rule: emitted.induct)
  case emitted_Nil then show ?case by simp
next
  case (emitted_pass out r rs outs fl) then show ?case by (cases i) auto
next
  case (emitted_fail r n rs outs fl) then show ?case by (cases i) (auto simp: sig_no_ws_normalize)
qed

lemma emitted_failed:
  "emitted tw rs outs fl \<Longrightarrow> distinct (map lineno rs) \<Longrightarrow> i < length rs \<Longrightarrow> lineno (rs ! i) \<in> set fl
    \<Longrightarrow> normalize_line (orig (rs ! i)) tw = Inr (outs ! i)"
proof (induction arbitrary: i rule: emitted.induct)
  case emitted_Nil then show ?case by simp
next
  case (emitted_pass out r rs outs fl)
  show ?case
  proof (cases i)
    case 0
    with emitted_pass.prems emitted_fails_subset[OF emitted_pass.hyps(3)] show ?thesis by auto
  next
    case (Suc j) with emitted_pass show ?thesis by auto
  qed
next
  case (emitted_fail r n rs outs fl)
  show ?case
  proof (cases i)
    case 0 with emitted_fail.hyps show ?thesis by simp
  next
    case (Suc j)
    with emitted_fail.prems have "rs ! j \<in> set rs" "lineno r \<notin> lineno ` set rs" by auto
    then have "lineno (rs ! j) \<noteq> lineno r" by (metis imageI)
    with Suc emitted_fail show ?thesis by auto
  qed
qed

lemma emitted_failed_kind:
  "emitted tw rs outs fl \<Longrightarrow> distinct (map lineno rs) \<Longrightarrow> i < length rs \<Longrightarrow> lineno (rs ! i) \<in> set fl
    \<Longrightarrow> kind (rs ! i) = Cmd \<or> sig_no_ws (line (rs ! i)) \<noteq> sig_no_ws (orig (rs ! i))"
proof (induction arbitrary: i rule: emitted.induct)
  case emitted_Nil then show ?case by simp
next
  case (emitted_pass out r rs outs fl)
  show ?case
  proof (cases i)
    case 0
    with emitted_pass.prems emitted_fails_subset[OF emitted_pass.hyps(3)] show ?thesis by auto
  next
    case (Suc j) with emitted_pass show ?thesis by auto
  qed
next
  case (emitted_fail r n rs outs fl)
  show ?case
  proof (cases i)
    case 0 with emitted_fail.hyps show ?thesis by simp
  next
    case (Suc j)
    with emitted_fail.prems have "rs ! j \<in> set rs" "lineno r \<notin> lineno ` set rs" by auto
    then have "lineno (rs ! j) \<noteq> lineno r" by (metis imageI)
    with Suc emitted_fail show ?thesis by auto
  qed
qed

lemma emitted_plain:
  "emitted tw rs outs fl \<Longrightarrow> i < length rs \<Longrightarrow> kind (rs ! i) \<noteq> Cmd
    \<Longrightarrow> sig_no_ws (line (rs ! i)) = sig_no_ws (orig (rs ! i)) \<Longrightarrow> outs ! i = line (rs ! i)"
proof (induction arbitrary: i rule: emitted.induct)
  case emitted_Nil then show ?case by simp
next
  case (emitted_pass out r rs outs fl) then show ?case by (cases i) auto
next
  case (emitted_fail r n rs outs fl) then show ?case by (cases i) auto
qed

lemma sig_guard_cases:
  "sig_guard n r new_line st = (out, st') \<Longrightarrow>
     (out = new_line \<and> st' = st \<and> sig_no_ws new_line = sig_no_ws (orig r)) \<or>
     (out = n \<and> sig_no_ws new_line \<noteq> sig_no_ws (orig r)
        \<and> st' = st\<lparr>stat_sig_fail_lines := stat_sig_fail_lines st @ [lineno r]\<rparr>)"
  by (auto simp: sig_guard_def split: if_splits)

lemma with_comment_fails:
  "with_comment target r c st = (x, st1) \<Longrightarrow> stat_sig_fail_lines st1 = stat_sig_fail_lines st"
  by (auto simp: with_comment_def inc_def split: if_splits option.splits)

lemma emit_lines_emitted:
  "index_sized tw \<or> rfs = [] \<Longrightarrow>
   list_all (\<lambda>(r, cf). kind r = Cmd \<longrightarrow> cf \<noteq> None) rfs \<Longrightarrow>
   \<exists>outs st' fl. emit_lines tw target rfs st = Inr (outs, st')
      \<and> stat_sig_fail_lines st' = stat_sig_fail_lines st @ fl
      \<and> emitted tw (map fst rfs) outs fl"
proof (induction rfs arbitrary: st)
  case Nil
  then show ?case by (auto intro: emitted.intros)
next
  case (Cons a rfs)
  obtain r cf where a: "a = (r, cf)" by (cases a)
  from Cons.prems have tw: "index_sized tw" by simp
  from Cons.prems a have all: "list_all (\<lambda>(r, cf). kind r = Cmd \<longrightarrow> cf \<noteq> None) rfs"
    and cf: "kind r = Cmd \<Longrightarrow> cf \<noteq> None" by auto
  from normalize_total[OF tw] obtain n where n: "normalize_line (orig r) tw = Inr n" by blast
  note IH = Cons.IH[OF disjI1[OF tw] all]
  show ?case
  proof (cases "kind r = Cmd")
    case False
    obtain nl st1 where g: "sig_guard n r (line r) st = (nl, st1)" by (cases "sig_guard n r (line r) st")
    from IH[of st1] obtain outs st' fl where
      e: "emit_lines tw target rfs st1 = Inr (outs, st')"
       "stat_sig_fail_lines st' = stat_sig_fail_lines st1 @ fl" "emitted tw (map fst rfs) outs fl" by blast
    from sig_guard_cases[OF g] show ?thesis
    proof
      assume "nl = line r \<and> st1 = st \<and> sig_no_ws (line r) = sig_no_ws (orig r)"
      with e g n False a show ?thesis by (auto intro: emitted.intros)
    next
      assume h: "nl = n \<and> sig_no_ws (line r) \<noteq> sig_no_ws (orig r)
        \<and> st1 = st\<lparr>stat_sig_fail_lines := stat_sig_fail_lines st @ [lineno r]\<rparr>"
      with e g n False a have "emit_lines tw target (a # rfs) st = Inr (nl # outs, st')" by auto
      moreover from h e have "stat_sig_fail_lines st' = stat_sig_fail_lines st @ (lineno r # fl)" by simp
      moreover from h e n have "emitted tw (map fst (a # rfs)) (nl # outs) (lineno r # fl)"
        using a by (auto intro: emitted.intros)
      ultimately show ?thesis by blast
    qed
  next
    case True
    with cf obtain c where c: "cf = Some c" by auto
    obtain x st0 where w: "with_comment target r c st = (x, st0)" by (cases "with_comment target r c st")
    from normalize_total[OF tw] obtain x' where x': "normalize_line x tw = Inr x'" by blast
    obtain nl st1 where g: "sig_guard n r x' st0 = (nl, st1)"
      by (cases "sig_guard n r x' st0")
    from IH[of st1] obtain outs st' fl where
      e: "emit_lines tw target rfs st1 = Inr (outs, st')"
       "stat_sig_fail_lines st' = stat_sig_fail_lines st1 @ fl" "emitted tw (map fst rfs) outs fl" by blast
    have f0: "stat_sig_fail_lines st0 = stat_sig_fail_lines st" using with_comment_fails[OF w] .
    from e g w c n x' True a have r: "emit_lines tw target (a # rfs) st = Inr (nl # outs, st')" by auto
    from sig_guard_cases[OF g] show ?thesis
    proof
      assume "nl = x' \<and> st1 = st0 \<and> sig_no_ws x' = sig_no_ws (orig r)"
      with e r f0 a True show ?thesis by (auto intro: emitted.intros)
    next
      assume h: "nl = n \<and> sig_no_ws x' \<noteq> sig_no_ws (orig r)
        \<and> st1 = st0\<lparr>stat_sig_fail_lines := stat_sig_fail_lines st0 @ [lineno r]\<rparr>"
      from h e f0 have "stat_sig_fail_lines st' = stat_sig_fail_lines st @ (lineno r # fl)" by simp
      moreover from h e n have "emitted tw (map fst (a # rfs)) (nl # outs) (lineno r # fl)"
        using a True by (auto intro: emitted.intros)
      ultimately show ?thesis using r by blast
    qed
  qed
qed

lemma widths_row_ok:
  "i + length fs \<le> length ws \<Longrightarrow> \<exists>ws'. widths_row U i fs ws = Inr ws' \<and> length ws' = length ws"
proof (induction fs arbitrary: i ws)
  case Nil then show ?case by simp
next
  case (Cons f fs)
  let ?ws = "ws[i := max (ws ! i) (vis_width U f)]"
  from Cons.prems have "Suc i + length fs \<le> length ?ws" by simp
  from Cons.IH[OF this] Cons.prems show ?case by auto
qed

lemma widths_rows_ok:
  "list_all (\<lambda>fs. length fs \<le> length ws) rows
    \<Longrightarrow> \<exists>ws'. widths_rows U rows ws = Inr ws' \<and> length ws' = length ws"
proof (induction rows arbitrary: ws)
  case Nil then show ?case by simp
next
  case (Cons fs rows)
  then have "0 + length fs \<le> length ws" by simp
  from widths_row_ok[OF this, of U] obtain ws1 where
    w: "widths_row U 0 fs ws = Inr ws1" "length ws1 = length ws" by blast
  with Cons.prems have "list_all (\<lambda>fs. length fs \<le> length ws1) rows" by simp
  from Cons.IH[OF this] w show ?case by auto
qed

lemma fold_max_length_ge:
  "m \<le> fold (\<lambda>fs m. max m (length fs)) rows m
     \<and> list_all (\<lambda>fs. length fs \<le> fold (\<lambda>fs m. max m (length fs)) rows m) rows"
proof (induction rows arbitrary: m)
  case Nil then show ?case by simp
next
  case (Cons fs rows)
  have a: "max m (length fs) \<le> fold (\<lambda>fs m. max m (length fs)) rows (max m (length fs))"
    and b: "list_all (\<lambda>x. length x \<le> fold (\<lambda>fs m. max m (length fs)) rows (max m (length fs))) rows"
    using Cons.IH[of "max m (length fs)"] by auto
  from a b show ?case by auto
qed

lemma echo_col_widths_of_ok: "\<exists>ws. echo_col_widths_of U rows = Inr ws"
proof -
  let ?m = "fold (\<lambda>fs m. max m (length fs)) rows 0"
  have "list_all (\<lambda>fs. length fs \<le> length (replicate ?m (0::int))) rows"
    using fold_max_length_ge[of 0 rows] by simp
  from widths_rows_ok[OF this, of U] show ?thesis
    by (auto simp: echo_col_widths_of_def Let_def)
qed

lemma code_fmt_of_Cmd:
  "kind r = Cmd \<Longrightarrow> \<exists>c. fst (code_fmt_of U special et vc sc ws r) = Some c"
  by (auto simp: code_fmt_of_def Let_def split: prod.splits option.splits)

lemma count_incs_fails: "stat_sig_fail_lines (count_incs ks st) = stat_sig_fail_lines st"
  unfolding count_incs_def
  by (induction ks arbitrary: st) (auto simp: inc_def split: option.splits)

lemma format_cmd_lines_emitted:
  "index_sized tw \<or> cmd_recs = [] \<Longrightarrow>
   \<exists>outs st' fl. format_cmd_lines U cmd_recs kcap ccap tw special et st = Inr (outs, st')
      \<and> stat_sig_fail_lines st' = stat_sig_fail_lines st @ fl
      \<and> emitted tw cmd_recs outs fl"
proof -
  assume tw: "index_sized tw \<or> cmd_recs = []"
  obtain ws where ws: "echo_col_widths_of U (echo_rows et cmd_recs) = Inr ws"
    using echo_col_widths_of_ok by blast
  define vc where "vc = max_key_of cmd_recs kcap + 1"
  define sc where "sc = vc + max_q1_len_of special cmd_recs + 1"
  define cfs where "cfs = map fst (map (code_fmt_of U special et vc sc ws) cmd_recs)"
  define st1 where "st1 = count_incs (map snd (map (code_fmt_of U special et vc sc ws) cmd_recs)) st"
  define target where "target = comment_target_of (code_lens_for_comment (zip cmd_recs cfs)) ccap"
  have eq: "format_cmd_lines U cmd_recs kcap ccap tw special et st
      = emit_lines tw target (zip cmd_recs cfs) st1"
    by (simp add: format_cmd_lines_def Let_def ws vc_def sc_def cfs_def st1_def target_def)
  have len: "length cfs = length cmd_recs" by (simp add: cfs_def)
  have "list_all (\<lambda>(r, cf). kind r = Cmd \<longrightarrow> cf \<noteq> None) (zip cmd_recs cfs)"
    unfolding list_all_iff cfs_def
    by (auto simp: in_set_zip code_fmt_of_Cmd)
  moreover have "index_sized tw \<or> zip cmd_recs cfs = []" using tw by auto
  ultimately obtain outs st' fl where
    e: "emit_lines tw target (zip cmd_recs cfs) st1 = Inr (outs, st')"
       "stat_sig_fail_lines st' = stat_sig_fail_lines st1 @ fl"
       "emitted tw (map fst (zip cmd_recs cfs)) outs fl"
    using emit_lines_emitted[of tw "zip cmd_recs cfs" target st1] by blast
  have "map fst (zip cmd_recs cfs) = cmd_recs" using len by (simp add: map_fst_zip)
  with e eq show ?thesis by (auto simp: st1_def count_incs_fails)
qed

lemma emitted_Cons_inv:
  "emitted tw (r # rs) it fl \<Longrightarrow>
     \<exists>x outs'. it = x # outs' \<and>
       ((sig_no_ws x = sig_no_ws (orig r) \<and> (kind r = Cmd \<or> x = line r) \<and> emitted tw rs outs' fl)
        \<or> (normalize_line (orig r) tw = Inr x \<and> (kind r = Cmd \<or> sig_no_ws (line r) \<noteq> sig_no_ws (orig r))
             \<and> (\<exists>fl'. fl = lineno r # fl' \<and> emitted tw rs outs' fl')))"
  by (erule emitted.cases) auto

lemma handle_boundary_ok:
  "sig_no_ws (line r) = sig_no_ws (orig r) \<Longrightarrow> handle_boundary tw r (out, st) = Inr (out @ [line r], st)"
  by (simp add: handle_boundary_def)

lemma reassemble_emitted:
  "emitted tw (filter (\<lambda>r. kind r \<noteq> Boundary) rs) it fl
   \<Longrightarrow> list_all (\<lambda>r. sig_no_ws (line r) = sig_no_ws (orig r)) rs
   \<Longrightarrow> \<exists>outs. reassemble tw rs it (out, st) = Inr (out @ outs, st) \<and> emitted tw rs outs fl"
proof (induction rs arbitrary: it fl out)
  case Nil
  then show ?case by (auto elim: emitted.cases intro: emitted.intros)
next
  case (Cons r rs)
  show ?case
  proof (cases "kind r = Boundary")
    case True
    with Cons.prems have e: "emitted tw (filter (\<lambda>r. kind r \<noteq> Boundary) rs) it fl"
      and all: "list_all (\<lambda>r. sig_no_ws (line r) = sig_no_ws (orig r)) rs"
      and sg: "sig_no_ws (line r) = sig_no_ws (orig r)" by auto
    from Cons.IH[OF e all, of "out @ [line r]"] obtain outs where
      o: "reassemble tw rs it (out @ [line r], st) = Inr ((out @ [line r]) @ outs, st)"
         "emitted tw rs outs fl" by blast
    have "reassemble tw (r # rs) it (out, st) = Inr (out @ (line r # outs), st)"
      using True o(1) by (simp add: handle_boundary_ok[OF sg])
    moreover have "emitted tw (r # rs) (line r # outs) fl"
      using o(2) sg by (auto intro: emitted.intros)
    ultimately show ?thesis by blast
  next
    case False
    with Cons.prems have e: "emitted tw (r # filter (\<lambda>r. kind r \<noteq> Boundary) rs) it fl"
      and all: "list_all (\<lambda>r. sig_no_ws (line r) = sig_no_ws (orig r)) rs" by auto
    from emitted_Cons_inv[OF e] obtain x outs' where it: "it = x # outs'"
      and alt: "(sig_no_ws x = sig_no_ws (orig r) \<and> (kind r = Cmd \<or> x = line r)
              \<and> emitted tw (filter (\<lambda>r. kind r \<noteq> Boundary) rs) outs' fl)
         \<or> (normalize_line (orig r) tw = Inr x \<and> (kind r = Cmd \<or> sig_no_ws (line r) \<noteq> sig_no_ws (orig r))
              \<and> (\<exists>fl'. fl = lineno r # fl' \<and> emitted tw (filter (\<lambda>r. kind r \<noteq> Boundary) rs) outs' fl'))"
      by blast
    from alt show ?thesis
    proof
      assume h: "sig_no_ws x = sig_no_ws (orig r) \<and> (kind r = Cmd \<or> x = line r)
              \<and> emitted tw (filter (\<lambda>r. kind r \<noteq> Boundary) rs) outs' fl"
      from Cons.IH[OF conjunct2[OF conjunct2[OF h]] all, of "out @ [x]"] obtain outs where
        o: "reassemble tw rs outs' (out @ [x], st) = Inr ((out @ [x]) @ outs, st)"
           "emitted tw rs outs fl" by blast
      have "reassemble tw (r # rs) it (out, st) = Inr (out @ (x # outs), st)"
        using False it o(1) by simp
      moreover have "emitted tw (r # rs) (x # outs) fl"
        using o(2) h by (auto intro: emitted.intros)
      ultimately show ?thesis by blast
    next
      assume "normalize_line (orig r) tw = Inr x \<and> (kind r = Cmd \<or> sig_no_ws (line r) \<noteq> sig_no_ws (orig r))
              \<and> (\<exists>fl'. fl = lineno r # fl' \<and> emitted tw (filter (\<lambda>r. kind r \<noteq> Boundary) rs) outs' fl')"
      then obtain fl' where x: "normalize_line (orig r) tw = Inr x" and fl: "fl = lineno r # fl'"
        and kc: "kind r = Cmd \<or> sig_no_ws (line r) \<noteq> sig_no_ws (orig r)"
        and e': "emitted tw (filter (\<lambda>r. kind r \<noteq> Boundary) rs) outs' fl'" by blast
      from Cons.IH[OF e' all, of "out @ [x]"] obtain outs where
        o: "reassemble tw rs outs' (out @ [x], st) = Inr ((out @ [x]) @ outs, st)"
           "emitted tw rs outs fl'" by blast
      have "reassemble tw (r # rs) it (out, st) = Inr (out @ (x # outs), st)"
        using False it o(1) by simp
      moreover have "emitted tw (r # rs) (x # outs) fl"
        using o(2) fl x kc by (auto intro: emitted.intros)
      ultimately show ?thesis by blast
    qed
  qed
qed

lemma format_chunk_emitted:
  "index_sized (tab_width opts) \<or> chunk = [] \<Longrightarrow>
   \<exists>outs st' fl. format_chunk U opts chunk st = Inr (outs, st')
      \<and> stat_sig_fail_lines st' = stat_sig_fail_lines st @ fl
      \<and> emitted (tab_width opts) chunk outs fl"
  unfolding format_chunk_def by (rule format_cmd_lines_emitted)

lemma block_loop_emitted:
  "index_sized (tab_width opts)
   \<Longrightarrow> list_all (\<lambda>r. sig_no_ws (line r) = sig_no_ws (orig r)) rs
   \<Longrightarrow> \<exists>block' outs st' fl done.
        block_loop U opts rs block (out, st) = Inr (block', out @ outs, st')
      \<and> stat_sig_fail_lines st' = stat_sig_fail_lines st @ fl
      \<and> block @ rs = done @ block'
      \<and> emitted (tab_width opts) done outs fl"
proof (induction rs arbitrary: block out st)
  case Nil
  have "emitted (tab_width opts) [] [] []" by (rule emitted.intros)
  then show ?case by force
next
  case (Cons r rs)
  then have all: "list_all (\<lambda>r. sig_no_ws (line r) = sig_no_ws (orig r)) rs"
    and sg: "sig_no_ws (line r) = sig_no_ws (orig r)" and tw: "index_sized (tab_width opts)" by auto
  note IH = Cons.IH[OF tw all]
  have er: "emitted (tab_width opts) [r] [line r] []"
    using sg by (auto intro: emitted.intros)
  show ?case
  proof (cases "kind r = Boundary")
    case False
    from IH[of "block @ [r]" out st] False show ?thesis by auto
  next
    case True
    show ?thesis
    proof (cases "block = []")
      case True
      from IH[of "[]" "out @ [line r]" st] obtain block' outs st' fl dn where
        o: "block_loop U opts rs [] (out @ [line r], st) = Inr (block', (out @ [line r]) @ outs, st')"
           "stat_sig_fail_lines st' = stat_sig_fail_lines st @ fl"
           "[] @ rs = dn @ block'" "emitted (tab_width opts) dn outs fl" by blast
      have "block_loop U opts (r # rs) block (out, st) = Inr (block', out @ (line r # outs), st')"
        using True \<open>kind r = Boundary\<close> o(1) by (simp add: handle_boundary_ok[OF sg])
      moreover have "block @ r # rs = (r # dn) @ block'" using True o(3) by simp
      moreover have "emitted (tab_width opts) (r # dn) (line r # outs) fl"
        using o(4) sg by (auto intro: emitted.intros)
      ultimately show ?thesis using o(2) by blast
    next
      case False
      from format_chunk_emitted[OF disjI1[OF tw], of U block st] obtain ls st1 fl1 where
        c: "format_chunk U opts block st = Inr (ls, st1)"
           "stat_sig_fail_lines st1 = stat_sig_fail_lines st @ fl1"
           "emitted (tab_width opts) block ls fl1" by blast
      from IH[of "[]" "(out @ ls) @ [line r]" st1] obtain block' outs st' fl dn where
        o: "block_loop U opts rs [] ((out @ ls) @ [line r], st1)
              = Inr (block', ((out @ ls) @ [line r]) @ outs, st')"
           "stat_sig_fail_lines st' = stat_sig_fail_lines st1 @ fl"
           "[] @ rs = dn @ block'" "emitted (tab_width opts) dn outs fl" by blast
      have "block_loop U opts (r # rs) block (out, st) = Inr (block', out @ (ls @ line r # outs), st')"
        using False \<open>kind r = Boundary\<close> o(1) c(1) by (simp add: handle_boundary_ok[OF sg])
      moreover have "block @ r # rs = (block @ r # dn) @ block'" using o(3) by simp
      moreover have "emitted (tab_width opts) (block @ r # dn) (ls @ line r # outs) (fl1 @ fl)"
      proof -
        have "emitted (tab_width opts) (r # dn) (line r # outs) fl"
          using o(4) sg by (auto intro: emitted.intros)
        from emitted_append[OF c(3) this] show ?thesis by simp
      qed
      moreover have "stat_sig_fail_lines st' = stat_sig_fail_lines st @ (fl1 @ fl)"
        using o(2) c(2) by simp
      ultimately show ?thesis by blast
    qed
  qed
qed

lemma classify_fields:
  assumes "classify U opts i s = Inr r"
  shows "orig r = s" "lineno r = i" "normalize_line s (tab_width opts) = Inr (line r)"
  using assms
  by (auto simp: classify_def plain_rec_def Let_def split: sum.splits option.splits prod.splits if_splits)

lemma classify_total: "index_sized (tab_width opts) \<Longrightarrow> \<exists>r. classify U opts i s = Inr r"
  using normalize_total[of "tab_width opts" s] by (auto simp: classify_def)

lemma classify_Inl_iff:
  "classify U opts i s = Inl e \<longleftrightarrow> \<not> index_sized (tab_width opts) \<and> e = OverflowError"
  by (auto simp: classify_def normalize_Inl_iff normalize_Inr_iff split: sum.splits)

lemma parse_from_total:
  "index_sized (tab_width opts) \<Longrightarrow> \<exists>recs. parse_from U opts k lns = Inr recs"
proof (induction lns arbitrary: k)
  case Nil then show ?case by simp
next
  case (Cons l lns)
  from classify_total[OF Cons.prems] obtain r where "classify U opts k l = Inr r" by blast
  moreover from Cons.IH[OF Cons.prems] obtain recs where "parse_from U opts (Suc k) lns = Inr recs"
    by blast
  ultimately show ?case by simp
qed

lemma parse_from_overflow:
  "\<not> index_sized (tab_width opts) \<Longrightarrow> lns \<noteq> [] \<Longrightarrow> parse_from U opts k lns = Inl OverflowError"
proof -
  assume a: "\<not> index_sized (tab_width opts)" "lns \<noteq> []"
  then obtain l ls where "lns = l # ls" by (cases lns) auto
  moreover have "classify U opts k l = Inl OverflowError" using a(1) by (simp add: classify_Inl_iff)
  ultimately show ?thesis by simp
qed

lemma parse_from_props:
  "parse_from U opts k lns = Inr recs \<Longrightarrow>
     length recs = length lns
     \<and> (\<forall>i<length lns. classify U opts (k + i) (lns ! i) = Inr (recs ! i))"
proof (induction lns arbitrary: k recs)
  case Nil then show ?case by simp
next
  case (Cons l lns)
  from Cons.prems obtain r rs where r: "classify U opts k l = Inr r"
    and rs: "parse_from U opts (Suc k) lns = Inr rs" and recs: "recs = r # rs"
    by (auto split: sum.splits)
  from Cons.IH[OF rs] have len: "length rs = length lns"
    and nth: "\<And>i. i < length lns \<Longrightarrow> classify U opts (Suc k + i) (lns ! i) = Inr (rs ! i)" by auto
  have "classify U opts (k + i) ((l # lns) ! i) = Inr (recs ! i)" if "i < length (l # lns)" for i
    using that r nth recs by (cases i) auto
  with len recs show ?case by simp
qed

lemma parse_lines_total:
  "index_sized (tab_width opts) \<Longrightarrow> \<exists>recs. parse_lines U opts lns = Inr recs"
  unfolding parse_lines_def by (rule parse_from_total)

lemma parse_lines_overflow:
  "\<not> index_sized (tab_width opts) \<Longrightarrow> lns \<noteq> [] \<Longrightarrow> parse_lines U opts lns = Inl OverflowError"
  unfolding parse_lines_def by (rule parse_from_overflow)

lemma parse_lines_Nil: "parse_lines U opts [] = Inr []"
  by (simp add: parse_lines_def)

lemma parse_lines_Inl:
  "parse_lines U opts lns = Inl e \<Longrightarrow> \<not> index_sized (tab_width opts) \<and> lns \<noteq> [] \<and> e = OverflowError"
  using parse_lines_total[of opts U lns] parse_lines_overflow[of opts lns U] parse_lines_Nil[of U opts]
  by (cases "lns = []") auto

lemma parse_lines_index_sized:
  "parse_lines U opts lns = Inr recs \<Longrightarrow> index_sized (tab_width opts) \<or> (lns = [] \<and> recs = [])"
  using parse_lines_overflow[of opts lns U] parse_lines_Nil[of U opts] by (cases "lns = []") auto

lemma parse_lines_props:
  assumes "parse_lines U opts lns = Inr recs"
  shows "length recs = length lns"
    "i < length lns \<Longrightarrow> classify U opts (Suc i) (lns ! i) = Inr (recs ! i)"
    "i < length lns \<Longrightarrow> orig (recs ! i) = lns ! i"
    "i < length lns \<Longrightarrow> lineno (recs ! i) = Suc i"
    "i < length lns \<Longrightarrow> normalize_line (lns ! i) (tab_width opts) = Inr (line (recs ! i))"
proof -
  note P = parse_from_props[OF assms[unfolded parse_lines_def]]
  show "length recs = length lns" using P by simp
  show c: "i < length lns \<Longrightarrow> classify U opts (Suc i) (lns ! i) = Inr (recs ! i)" using P by simp
  show "i < length lns \<Longrightarrow> orig (recs ! i) = lns ! i" using classify_fields(1)[OF c] by simp
  show "i < length lns \<Longrightarrow> lineno (recs ! i) = Suc i" using classify_fields(2)[OF c] by simp
  show "i < length lns \<Longrightarrow> normalize_line (lns ! i) (tab_width opts) = Inr (line (recs ! i))"
    using classify_fields(3)[OF c] by simp
qed

lemma parse_lines_sig:
  assumes "parse_lines U opts lns = Inr recs"
  shows "list_all (\<lambda>r. sig_no_ws (line r) = sig_no_ws (orig r)) recs"
  unfolding list_all_length
proof (intro allI impI)
  fix n assume "n < length recs"
  then have n: "n < length lns" by (simp add: parse_lines_props(1)[OF assms])
  from sig_no_ws_normalize[OF parse_lines_props(5)[OF assms n]] parse_lines_props(3)[OF assms n]
  show "sig_no_ws (line (recs ! n)) = sig_no_ws (orig (recs ! n))" by simp
qed

lemma parse_lines_distinct:
  assumes "parse_lines U opts lns = Inr recs"
  shows "distinct (map lineno recs)"
proof -
  have "map lineno recs = [1 ..< Suc (length lns)]"
    by (rule nth_equalityI) (auto simp: parse_lines_props[OF assms] simp del: upt_Suc)
  then show ?thesis by (simp del: upt_Suc)
qed

lemma format_lines_emitted:
  assumes "align_mode opts = lit ''global'' \<or> align_mode opts = lit ''block''"
    and p: "parse_lines U opts (splitlines raw) = Inr recs"
  shows "\<exists>outs st. format_lines U raw opts = Inr (outs, st)
      \<and> emitted (tab_width opts) recs outs (stat_sig_fail_lines st)"
proof (cases "align_mode opts = lit ''global''")
  case True
  let ?st0 = "initial_stats (splitlines raw) opts"
  have tw: "index_sized (tab_width opts) \<or> filter (\<lambda>r. kind r \<noteq> Boundary) recs = []"
    using parse_lines_index_sized[OF p] by auto
  from format_chunk_emitted[OF tw, of U ?st0]
  obtain formatted st1 fl where
    c: "format_chunk U opts (filter (\<lambda>r. kind r \<noteq> Boundary) recs) ?st0 = Inr (formatted, st1)"
       "stat_sig_fail_lines st1 = fl"
       "emitted (tab_width opts) (filter (\<lambda>r. kind r \<noteq> Boundary) recs) formatted fl"
    by (auto simp: initial_stats_def)
  from reassemble_emitted[OF c(3) parse_lines_sig[OF p], of "[]" st1] obtain outs where
    "reassemble (tab_width opts) recs formatted ([], st1) = Inr (outs, st1)"
    "emitted (tab_width opts) recs outs fl" by auto
  with c True p show ?thesis by (auto simp: format_lines_def Let_def)
next
  case False
  with assms have blk: "align_mode opts = lit ''block''" by simp
  let ?st0 = "initial_stats (splitlines raw) opts"
  show ?thesis
  proof (cases "index_sized (tab_width opts)")
    case tw: True
    from block_loop_emitted[OF tw parse_lines_sig[OF p], where block = "[]" and out = "[]"
         and st = ?st0 and U = U]
    obtain block' outs st' fl dn where
      b: "block_loop U opts recs [] ([], ?st0) = Inr (block', outs, st')"
         "stat_sig_fail_lines st' = fl" "recs = dn @ block'"
         "emitted (tab_width opts) dn outs fl"
      by (auto simp: initial_stats_def)
    show ?thesis
    proof (cases "block' = []")
      case True
      with b False blk p show ?thesis by (auto simp: format_lines_def Let_def)
    next
      case nonempty: False
      from format_chunk_emitted[OF disjI1[OF tw], of U block' st'] obtain ls st2 fl2 where
        c: "format_chunk U opts block' st' = Inr (ls, st2)"
           "stat_sig_fail_lines st2 = stat_sig_fail_lines st' @ fl2"
           "emitted (tab_width opts) block' ls fl2" by blast
      have "emitted (tab_width opts) recs (outs @ ls) (stat_sig_fail_lines st2)"
        using emitted_append[OF b(4) c(3)] b(2,3) c(2) by simp
      moreover have "format_lines U raw opts = Inr (outs @ ls, st2)"
        using b(1) c(1) nonempty False blk p by (simp add: format_lines_def Let_def)
      ultimately show ?thesis by blast
    qed
  next
    case False
    with parse_lines_index_sized[OF p] have e: "recs = []" by simp
    have "format_lines U raw opts = Inr ([], ?st0)"
      using p e blk \<open>align_mode opts \<noteq> lit ''global''\<close> by (simp add: format_lines_def Let_def)
    moreover have "emitted (tab_width opts) recs [] (stat_sig_fail_lines ?st0)"
      using e by (simp add: initial_stats_def emitted.intros)
    ultimately show ?thesis by blast
  qed
qed

lemma format_text_Inr:
  assumes "align_mode opts = lit ''global'' \<or> align_mode opts = lit ''block''"
    and p: "parse_lines U opts (splitlines raw) = Inr recs"
  shows "\<exists>outs st. format_lines U raw opts = Inr (outs, st)
      \<and> emitted (tab_width opts) recs outs (stat_sig_fail_lines st)
      \<and> format_text U raw opts = Inr \<lparr> out_text = assemble raw outs, changed = (assemble raw outs \<noteq> raw),
            sig_fail_lines = stat_sig_fail_lines st, result_stats = st \<rparr>"
proof -
  from format_lines_emitted[OF assms] obtain outs st where
    "format_lines U raw opts = Inr (outs, st)"
    "emitted (tab_width opts) recs outs (stat_sig_fail_lines st)" by blast
  then show ?thesis by (auto simp: format_text_def Let_def)
qed



lemma format_lines_invalid:
  "align_mode opts \<noteq> lit ''global'' \<Longrightarrow> align_mode opts \<noteq> lit ''block''
     \<Longrightarrow> parse_lines U opts (splitlines raw) = Inr recs
     \<Longrightarrow> format_lines U raw opts = Inl ValueError"
  by (simp add: format_lines_def Let_def)

lemma format_text_invalid:
  "align_mode opts \<noteq> lit ''global'' \<Longrightarrow> align_mode opts \<noteq> lit ''block''
     \<Longrightarrow> parse_lines U opts (splitlines raw) = Inr recs
     \<Longrightarrow> format_text U raw opts = Inl ValueError"
  by (simp add: format_text_def format_lines_invalid)

lemma format_text_InrD:
  assumes "format_text U raw opts = Inr res"
  shows "\<exists>recs outs. parse_lines U opts (splitlines raw) = Inr recs
      \<and> format_lines U raw opts = Inr (outs, result_stats res)
      \<and> emitted (tab_width opts) recs outs (sig_fail_lines res)
      \<and> out_text res = assemble raw outs \<and> changed res = (out_text res \<noteq> raw)"
proof (cases "parse_lines U opts (splitlines raw)")
  case (Inl e)
  then have "format_text U raw opts = Inl e" by (simp add: format_text_def format_lines_def Let_def)
  with assms show ?thesis by simp
next
  case (Inr recs)
  show ?thesis
  proof (cases "align_mode opts = lit ''global'' \<or> align_mode opts = lit ''block''")
    case True
    from format_text_Inr[OF True Inr] assms Inr show ?thesis by auto
  next
    case False
    with assms format_text_invalid[of opts U raw recs] Inr show ?thesis by auto
  qed
qed

subsection \<open>Evaluation\<close>

lemmas str_defs = lit_def isspace_def is_ws_def is_linebreak_def lstrip_def rstrip_def strip_def
  startswith_def endswith_def strip_char_def index_sized_def space_times_def detab_def normalize_line_def
  rstrip_ws_def sig_no_ws_def spaces_def len_def

lemmas classify_defs = classify_def plain_rec_def is_block_boundary_B_def
  is_separator_comment_line_def find_comment_pos_outside_quotes_def split_indent_key_rest_def
  ascii_db_def Let_def

lemmas chunk_defs = format_chunk_def
  format_cmd_lines_def key_widths_def max_key_of_def q1_lens_def max_q1_len_of_def
  is_echo_table_candidate_def echo_parse_def echo_rows_def echo_col_widths_of_def code_fmt_of_def
  code_lens_for_comment_def comment_target_of_def sig_guard_def with_comment_def count_incs_def
  inc_def effective_special_keys_def SPECIAL_ALIGN_KEYS_DEFAULT_def split_two_quoted_def
  vis_width_def initial_stats_def ascii_db_def Let_def

lemma format_text_globalI:
  assumes "align_mode opts = lit ''global''"
    and "parse_lines U opts (splitlines raw) = Inr recs"
    and "format_chunk U opts (filter (\<lambda>r. kind r \<noteq> Boundary) recs)
           (initial_stats (splitlines raw) opts) = Inr (formatted, st1)"
    and "reassemble (tab_width opts) recs formatted ([], st1) = Inr (outs, st)"
  shows "format_text U raw opts =
     Inr \<lparr> out_text = assemble raw outs, changed = (assemble raw outs \<noteq> raw),
           sig_fail_lines = stat_sig_fail_lines st, result_stats = st \<rparr>"
  using assms by (simp add: format_text_def format_lines_def Let_def)

lemma sample_lines: "splitlines sample_text = [lit ''// c '', lit ''a  b'', lit ''c'' @ [160] @ lit ''d'']"
  by (simp add: sample_text_def splitlines_def str_defs)

lemma sample_parse: "parse_lines ascii_db default_options (splitlines sample_text) = Inr sample_recs"
  by (simp add: sample_lines parse_lines_def sample_recs_def default_options_def
      classify_defs str_defs)

lemma sample_chunk:
  "format_chunk ascii_db default_options (filter (\<lambda>r. kind r \<noteq> Boundary) sample_recs)
     (initial_stats (splitlines sample_text) default_options)
   = Inr ([lit ''// c'', lit ''a b'', lit ''c'' @ [160] @ lit ''d''], result_stats sample_result)"
  by (simp add: sample_lines sample_recs_def sample_result_def default_options_def plain_rec_def
      chunk_defs str_defs)

lemma sample_reassemble:
  "reassemble (tab_width default_options) sample_recs
     [lit ''// c'', lit ''a b'', lit ''c'' @ [160] @ lit ''d''] ([], result_stats sample_result)
   = Inr ([lit ''// c'', lit ''a b'', lit ''c'' @ [160] @ lit ''d''], result_stats sample_result)"
  by (simp add: sample_recs_def plain_rec_def)

lemma format_text_sample: "format_text ascii_db sample_text default_options = Inr sample_result"
proof -
  have m: "align_mode default_options = lit ''global''" by (simp add: default_options_def)
  show ?thesis
    unfolding format_text_globalI[OF m sample_parse sample_chunk sample_reassemble]
    by (simp add: sample_result_def sample_text_def assemble_def newline_of_def
        keep_final_newline_def str_defs)
qed

subsection \<open>Further lemmas\<close>





lemma rstrip_ws_decomp: "\<exists>w. s = rstrip_ws s @ w \<and> list_all is_ws w"
proof -
  have "rev s = takeWhile is_ws (rev s) @ dropWhile is_ws (rev s)" by simp
  then have "s = rev (dropWhile is_ws (rev s)) @ rev (takeWhile is_ws (rev s))"
    by (metis rev_append rev_rev_ident)
  moreover have "list_all is_ws (rev (takeWhile is_ws (rev s)))"
    by (simp add: list_all_iff) (metis set_takeWhileD)
  ultimately show ?thesis unfolding rstrip_ws_def by blast
qed

lemma split_indent_key_rest_decomp:
  assumes "split_indent_key_rest U s = Some (ind, k, rst)"
  shows "\<exists>w. s = ind @ k @ w @ rst \<and> list_all isspace w \<and> list_all isspace ind
     \<and> k \<noteq> [] \<and> list_all (\<lambda>c. \<not> isspace c) k
     \<and> (if lower U k = lit ''echo'' then w = [] else rst = [] \<or> \<not> isspace (hd rst))"
proof -
  let ?s1 = "dropWhile isspace s"
  let ?rr = "dropWhile (\<lambda>c. \<not> isspace c) ?s1"
  from assms have ne: "?s1 \<noteq> []" and ind: "ind = takeWhile isspace s"
    and k: "k = takeWhile (\<lambda>c. \<not> isspace c) ?s1"
    and rst: "rst = (if lower U k = lit ''echo'' then ?rr else dropWhile isspace ?rr)"
    by (auto simp: split_indent_key_rest_def Let_def split: if_splits)
  have s: "s = ind @ k @ ?rr" by (simp add: ind k)
  have i_ws: "list_all isspace ind" by (simp add: ind list_all_iff) (metis set_takeWhileD)
  have k_ns: "list_all (\<lambda>c. \<not> isspace c) k" by (simp add: k list_all_iff) (metis set_takeWhileD)
  have "\<not> isspace (hd ?s1)" using ne by (simp add: hd_dropWhile)
  then have k_ne: "k \<noteq> []" using ne by (cases ?s1) (auto simp: k)
  show ?thesis
  proof (cases "lower U k = lit ''echo''")
    case True
    with rst s i_ws k_ns k_ne show ?thesis by (intro exI[of _ "[]"]) simp
  next
    case False
    have r: "?rr = takeWhile isspace ?rr @ rst" using rst False by simp
    have w: "list_all isspace (takeWhile isspace ?rr)" by (simp add: list_all_iff) (metis set_takeWhileD)
    have h: "rst = [] \<or> \<not> isspace (hd rst)"
      using rst False hd_dropWhile[of isspace ?rr] by auto
    from s r have "s = ind @ k @ takeWhile isspace ?rr @ rst" by simp
    with w i_ws k_ns k_ne h False show ?thesis
      by (intro exI[of _ "takeWhile isspace ?rr"]) simp
  qed
qed

lemma bind_x_rec_eval: "classify ascii_db default_options 1 (lit ''bind x'') = Inr bind_x_rec"
  by (simp add: bind_x_rec_def default_options_def classify_defs str_defs)


lemma strip_empty_iff: "strip s = [] \<longleftrightarrow> list_all isspace s"
proof -
  have "dropWhile isspace (rev (dropWhile isspace (rev s))) = [] \<longleftrightarrow> (\<forall>x\<in>set s. isspace x)"
  proof
    assume "dropWhile isspace (rev (dropWhile isspace (rev s))) = []"
    then have "\<forall>x\<in>set (rev (dropWhile isspace (rev s))). isspace x"
      by (simp add: dropWhile_eq_Nil_conv)
    then have "\<forall>x\<in>set (dropWhile isspace (rev s)). isspace x" by simp
    then have "dropWhile isspace (rev s) = []"
      by (metis dropWhile_eq_Nil_conv dropWhile_idem)
    then show "\<forall>x\<in>set s. isspace x" by (simp add: dropWhile_eq_Nil_conv)
  next
    assume "\<forall>x\<in>set s. isspace x"
    then have "dropWhile isspace (rev s) = []" by (simp add: dropWhile_eq_Nil_conv)
    then show "dropWhile isspace (rev (dropWhile isspace (rev s))) = []"
      by (simp only: rev.simps dropWhile.simps)
  qed
  then show ?thesis by (simp add: strip_def lstrip_def rstrip_def list_all_iff)
qed

lemma fold_max_ge: "(m::int) \<le> fold max xs m"
  by (induction xs arbitrary: m) (auto intro: order_trans[OF max.cobounded2])

lemma fold_max_mem_le: "x \<in> set xs \<Longrightarrow> (x::int) \<le> fold max xs m"
proof (induction xs arbitrary: m)
  case Nil then show ?case by simp
next
  case (Cons a xs)
  show ?case
  proof (cases "x = a")
    case True
    have "a \<le> max a m" by simp
    also have "\<dots> \<le> fold max xs (max a m)" by (rule fold_max_ge)
    finally show ?thesis using True by simp
  next
    case False with Cons show ?thesis by auto
  qed
qed

lemma max_list_ge: "x \<in> set xs \<Longrightarrow> x \<le> max_list xs"
  by (cases xs) (auto simp: fold_max_ge fold_max_mem_le)



lemma ff_lines: "splitlines ff_text = [lit ''a'', []]"
  by (simp add: ff_text_def splitlines_def str_defs)

lemma ff_parse: "parse_lines ascii_db default_options (splitlines ff_text) = Inr ff_recs"
  by (simp add: ff_lines parse_lines_def ff_recs_def default_options_def
      classify_defs str_defs)

lemma ff_chunk:
  "format_chunk ascii_db default_options (filter (\<lambda>r. kind r \<noteq> Boundary) ff_recs)
     (initial_stats (splitlines ff_text) default_options)
   = Inr ([lit ''a''], result_stats ff_result)"
  by (simp add: ff_lines ff_recs_def ff_result_def default_options_def plain_rec_def
      chunk_defs str_defs)

lemma ff_reassemble:
  "reassemble (tab_width default_options) ff_recs [lit ''a''] ([], result_stats ff_result)
   = Inr ([lit ''a'', []], result_stats ff_result)"
  by (simp add: ff_recs_def plain_rec_def handle_boundary_def sig_no_ws_def)

lemma format_text_ff: "format_text ascii_db ff_text default_options = Inr ff_result"
proof -
  have m: "align_mode default_options = lit ''global''" by (simp add: default_options_def)
  show ?thesis
    unfolding format_text_globalI[OF m ff_parse ff_chunk ff_reassemble]
    by (simp add: ff_result_def ff_text_def assemble_def newline_of_def
        keep_final_newline_def str_defs)
qed

lemma nbsp_lines: "splitlines nbsp_text = [nbsp_text]"
  by (simp add: nbsp_text_def splitlines_def str_defs)

lemma nbsp_parse: "parse_lines ascii_db default_options (splitlines nbsp_text) = Inr nbsp_recs"
  unfolding nbsp_lines
  by (simp add: nbsp_text_def parse_lines_def nbsp_recs_def default_options_def
      classify_defs str_defs)

lemma nbsp_chunk:
  "format_chunk ascii_db default_options (filter (\<lambda>r. kind r \<noteq> Boundary) nbsp_recs)
     (initial_stats (splitlines nbsp_text) default_options)
   = Inr ([nbsp_text], result_stats nbsp_result)"
  unfolding nbsp_lines
  by (simp add: nbsp_text_def nbsp_recs_def nbsp_result_def default_options_def
      chunk_defs str_defs)

lemma nbsp_reassemble:
  "reassemble (tab_width default_options) nbsp_recs [nbsp_text] ([], result_stats nbsp_result)
   = Inr ([nbsp_text], result_stats nbsp_result)"
  by (simp add: nbsp_recs_def)

lemma format_text_nbsp: "format_text ascii_db nbsp_text default_options = Inr nbsp_result"
proof -
  have m: "align_mode default_options = lit ''global''" by (simp add: default_options_def)
  show ?thesis
    unfolding format_text_globalI[OF m nbsp_parse nbsp_chunk nbsp_reassemble]
    by (simp add: nbsp_result_def nbsp_text_def assemble_def newline_of_def
        keep_final_newline_def str_defs)
qed

section \<open>The claims\<close>




text \<open>
  C1.  The output text is the newline-join of one emitted line per input line.  An emitted
  line whose 1-based number is not in \<open>sig_fail_lines\<close> has the non-whitespace signature of
  its input line; one whose number is in \<open>sig_fail_lines\<close> is the tab-expanded,
  trailing-whitespace-stripped input line.
\<close>

theorem signature_invariance:
  assumes "format_text U raw opts = Inr res"
  shows "\<exists>outs. format_lines U raw opts = Inr (outs, result_stats res)
      \<and> out_text res = assemble raw outs
      \<and> length outs = length (splitlines raw)
      \<and> (\<forall>i<length outs.
            if Suc i \<in> set (sig_fail_lines res)
            then normalize_line (splitlines raw ! i) (tab_width opts) = Inr (outs ! i)
            else sig_no_ws (outs ! i) = sig_no_ws (splitlines raw ! i))"
proof -
  from format_text_InrD[OF assms] obtain recs outs where
    p: "parse_lines U opts (splitlines raw) = Inr recs" and
    o: "format_lines U raw opts = Inr (outs, result_stats res)"
       "emitted (tab_width opts) recs outs (sig_fail_lines res)"
       "out_text res = assemble raw outs" by blast
  note P = parse_lines_props[OF p]
  have len: "length outs = length (splitlines raw)"
    using emitted_length[OF o(2)] by (simp add: P)
  have "if Suc i \<in> set (sig_fail_lines res)
            then normalize_line (splitlines raw ! i) (tab_width opts) = Inr (outs ! i)
            else sig_no_ws (outs ! i) = sig_no_ws (splitlines raw ! i)" if i: "i < length outs" for i
  proof -
    from i len have i': "i < length (splitlines raw)" "i < length recs" by (simp_all add: P)
    show ?thesis
      using emitted_sig[OF o(2) i'(2)] emitted_failed[OF o(2) parse_lines_distinct[OF p] i'(2)]
      by (simp add: P i')
  qed
  with o len show ?thesis by blast
qed

theorem signature_invariance_witness:
  "format_text ascii_db sample_text default_options = Inr sample_result
   \<and> (\<exists>outs. format_lines ascii_db sample_text default_options
                 = Inr (outs, result_stats sample_result)
      \<and> out_text sample_result = assemble sample_text outs
      \<and> length outs = length (splitlines sample_text)
      \<and> (\<forall>i<length outs.
            if Suc i \<in> set (sig_fail_lines sample_result)
            then normalize_line (splitlines sample_text ! i) (tab_width default_options) = Inr (outs ! i)
            else sig_no_ws (outs ! i) = sig_no_ws (splitlines sample_text ! i)))"
  by (rule conjI[OF format_text_sample signature_invariance[OF format_text_sample]])

text \<open>
  C10.  A line classified as Boundary or Pass never enters \<open>sig_fail_lines\<close>: the signature
  of the tab-expanded, trailing-whitespace-stripped line is the signature of the original,
  so the fallback of the guard is not taken and the line is emitted as the normalized
  original.
\<close>

theorem boundary_pass_never_fail:
  assumes "format_text U raw opts = Inr res"
    and "parse_lines U opts (splitlines raw) = Inr recs"
    and "i < length (splitlines raw)"
    and "kind (recs ! i) \<noteq> Cmd"
  shows "Suc i \<notin> set (sig_fail_lines res)
    \<and> (\<exists>n. normalize_line (splitlines raw ! i) (tab_width opts) = Inr n
          \<and> sig_no_ws n = sig_no_ws (splitlines raw ! i)
          \<and> (\<exists>outs. format_lines U raw opts = Inr (outs, result_stats res)
                \<and> out_text res = assemble raw outs
                \<and> outs ! i = n))"
proof -
  from format_text_InrD[OF assms(1)] assms(2) obtain outs where
    o: "format_lines U raw opts = Inr (outs, result_stats res)"
       "emitted (tab_width opts) recs outs (sig_fail_lines res)"
       "out_text res = assemble raw outs" by auto
  note P = parse_lines_props[OF assms(2)]
  have i': "i < length recs" using assms(3) by (simp add: P)
  have n: "normalize_line (splitlines raw ! i) (tab_width opts) = Inr (line (recs ! i))"
    using P(5)[OF assms(3)] .
  have sg: "sig_no_ws (line (recs ! i)) = sig_no_ws (orig (recs ! i))"
    using sig_no_ws_normalize[OF n] assms(3) by (simp add: P)
  have "Suc i \<notin> set (sig_fail_lines res)"
    using emitted_failed_kind[OF o(2) parse_lines_distinct[OF assms(2)] i'] assms(3,4) sg
    by (auto simp: P)
  moreover have "outs ! i = line (recs ! i)"
    using emitted_plain[OF o(2) i' assms(4) sg] .
  ultimately show ?thesis using o n sig_no_ws_normalize[OF n] by auto
qed

theorem boundary_pass_never_fail_witness:
  "Suc 0 \<notin> set (sig_fail_lines sample_result)
    \<and> (\<exists>n. normalize_line (splitlines sample_text ! 0) (tab_width default_options) = Inr n
          \<and> sig_no_ws n = sig_no_ws (splitlines sample_text ! 0)
          \<and> (\<exists>outs. format_lines ascii_db sample_text default_options
                        = Inr (outs, result_stats sample_result)
                \<and> out_text sample_result = assemble sample_text outs
                \<and> outs ! 0 = n))"
proof -
  have i: "0 < length (splitlines sample_text)"
    by (simp add: sample_lines)
  have k: "kind (sample_recs ! 0) \<noteq> Cmd"
    by (simp add: sample_recs_def plain_rec_def)
  show ?thesis by (rule boundary_pass_never_fail[OF format_text_sample sample_parse i k])
qed



text \<open>
  C5 (as stated).  The concatenation of indent, key, rest and comment is not the normalized
  line: for \<open>bind x\<close> it is \<open>bindx\<close>.
\<close>

theorem tokens_concat_counterexample:
  "classify ascii_db default_options 1 (lit ''bind x'') = Inr bind_x_rec
   \<and> kind bind_x_rec = Cmd
   \<and> indent bind_x_rec @ key bind_x_rec @ rest bind_x_rec @ comment bind_x_rec \<noteq> line bind_x_rec"
  by (rule conjI[OF bind_x_rec_eval]) (simp add: bind_x_rec_def lit_def)

text \<open>
  C5 (amended).  For every line classified as a command, the normalized line is
  indent, key, a run of whitespace characters, rest, a run of characters of the
  trailing-whitespace set, and comment, in this order; the first run is empty when the key is
  \<open>echo\<close> up to case, the second is empty when there is no comment.  Tokenization drops
  separator whitespace only.
\<close>

theorem tokens_reconstruct_line:
  assumes "classify U opts i s = Inr r" and "kind r = Cmd"
  shows "\<exists>w1 w2. line r = indent r @ key r @ w1 @ rest r @ w2 @ comment r
      \<and> list_all isspace w1 \<and> list_all is_ws w2
      \<and> (lower U (key r) = lit ''echo'' \<longrightarrow> w1 = [])
      \<and> (comment r = [] \<longrightarrow> w2 = [])"
proof -
  from assms(1) obtain ln where n: "normalize_line s (tab_width opts) = Inr ln"
    by (auto simp: classify_def split: sum.splits)
  let ?ln = ln
  note c = assms(1)[unfolded classify_def n sum.case]
  show ?thesis
  proof (cases "find_comment_pos_outside_quotes ?ln")
    case None
    with c assms(2) obtain ind k rst where
      sp: "split_indent_key_rest U ?ln = Some (ind, k, rst)"
      and r: "r = \<lparr> kind = Cmd, orig = s, line = ?ln, lineno = i, indent = ind, key = k,
                     key_lower = lower U k, rest = rst, comment = [] \<rparr>"
      by (auto simp: plain_rec_def Let_def split: if_splits option.splits)
    from split_indent_key_rest_decomp[OF sp] obtain w where
      "?ln = ind @ k @ w @ rst" "list_all isspace w"
      "if lower U k = lit ''echo'' then w = [] else rst = [] \<or> \<not> isspace (hd rst)" by blast
    then show ?thesis
      by (intro exI[of _ w] exI[of _ "[]"]) (auto simp: r split: if_splits)
  next
    case (Some cpos)
    with c assms(2) obtain ind k rst where
      sp: "split_indent_key_rest U (rstrip_ws (take cpos ?ln)) = Some (ind, k, rst)"
      and r: "r = \<lparr> kind = Cmd, orig = s, line = ?ln, lineno = i, indent = ind, key = k,
                     key_lower = lower U k, rest = rst, comment = drop cpos ?ln \<rparr>"
      by (auto simp: plain_rec_def Let_def split: if_splits option.splits)
    from split_indent_key_rest_decomp[OF sp] obtain w where
      w: "rstrip_ws (take cpos ?ln) = ind @ k @ w @ rst" "list_all isspace w"
      "if lower U k = lit ''echo'' then w = [] else rst = [] \<or> \<not> isspace (hd rst)" by blast
    from rstrip_ws_decomp[of "take cpos ?ln"] obtain w2 where
      w2: "take cpos ?ln = rstrip_ws (take cpos ?ln) @ w2" "list_all is_ws w2" by blast
    have "?ln = take cpos ?ln @ drop cpos ?ln" by simp
    with w(1) w2(1) have "?ln = ind @ k @ w @ rst @ w2 @ drop cpos ?ln" by (metis append.assoc)
    moreover have "drop cpos ?ln \<noteq> []"
    proof -
      have "find_comment_from q n xs = Some p \<Longrightarrow> n \<le> p \<and> p - n < length xs" for q n xs p
        by (induction q n xs rule: find_comment_from.induct) (auto split: if_splits)
      from this[of False 0 ?ln cpos] Some show ?thesis
        by (simp add: find_comment_pos_outside_quotes_def)
    qed
    ultimately show ?thesis using w(2,3) w2(2)
      by (intro exI[of _ w] exI[of _ w2]) (auto simp: r split: if_splits)
  qed
qed

theorem tokens_reconstruct_line_witness:
  "\<exists>w1 w2. line bind_x_rec = indent bind_x_rec @ key bind_x_rec @ w1 @ rest bind_x_rec @ w2 @ comment bind_x_rec
      \<and> list_all isspace w1 \<and> list_all is_ws w2
      \<and> (lower ascii_db (key bind_x_rec) = lit ''echo'' \<longrightarrow> w1 = [])
      \<and> (comment bind_x_rec = [] \<longrightarrow> w2 = [])"
proof -
  have k: "kind bind_x_rec = Cmd" by (simp add: bind_x_rec_def)
  show ?thesis by (rule tokens_reconstruct_line[OF bind_x_rec_eval k])
qed

text \<open>
  C6 (as stated).  A line that consists of one ideographic space is normalized, is not
  empty, is not \<open>echo;\<close> and is no banner, and is a block boundary all the same.
\<close>

theorem block_boundary_counterexample:
  "is_block_boundary_B ascii_db [12288] \<and> \<not> spec_block_boundary ascii_db [12288]
   \<and> normalize_line [12288] 4 = Inr [12288]"
  by (simp add: is_block_boundary_B_def spec_block_boundary_def ascii_db_def str_defs)

text \<open>
  C6 (amended).  A line is a block boundary if and only if it consists of whitespace
  characters only (in the sense of \<open>str.isspace\<close>; the empty line is one), or is \<open>echo;\<close>
  up to case and surrounding whitespace, or is a decorative comment banner: after left-trim
  it starts with \<open>//\<close>, and the left-trimmed body after the marker starts with \<open>+\<close> and
  either contains an asterisk or has at least 10 characters of which at least 60 percent are
  among \<open>#-_=+|\<close>.  The lowering of the Unicode database is only asked to map the empty
  string, and nothing else, to the empty string.
\<close>

theorem block_boundary_iff:
  assumes "\<forall>x. lower U x = [] \<longleftrightarrow> x = []"
  shows "is_block_boundary_B U txt \<longleftrightarrow>
     list_all isspace txt
     \<or> lower U (strip txt) = lit ''echo;''
     \<or> (startswith (lstrip txt) (lit ''//'')
         \<and> startswith (lstrip (drop 2 (lstrip txt))) (lit ''+'')
         \<and> (42 \<in> set (lstrip (drop 2 (lstrip txt)))
            \<or> (10 \<le> length (lstrip (drop 2 (lstrip txt)))
               \<and> 6 * length (lstrip (drop 2 (lstrip txt)))
                    \<le> 10 * deco_count (lstrip (drop 2 (lstrip txt))))))"
proof -
  have e: "lower U (strip txt) = [] \<longleftrightarrow> list_all isspace txt"
    using assms by (simp add: strip_empty_iff)
  have m: "10 \<le> length b \<Longrightarrow> max 1 (int (length b)) = int (length b)" for b :: pystr by simp
  have s: "is_separator_comment_line txt \<longleftrightarrow>
      (startswith (lstrip txt) (lit ''//'')
         \<and> startswith (lstrip (drop 2 (lstrip txt))) (lit ''+'')
         \<and> (42 \<in> set (lstrip (drop 2 (lstrip txt)))
            \<or> (10 \<le> length (lstrip (drop 2 (lstrip txt)))
               \<and> 6 * length (lstrip (drop 2 (lstrip txt)))
                    \<le> 10 * deco_count (lstrip (drop 2 (lstrip txt))))))"
    unfolding is_separator_comment_line_def Let_def deco_count_def
    by (auto simp: m)
  show ?thesis
    unfolding is_block_boundary_B_def Let_def e[symmetric] s[symmetric] by auto
qed

theorem block_boundary_iff_witness:
  "(\<forall>x. lower ascii_db x = [] \<longleftrightarrow> x = [])
   \<and> (is_block_boundary_B ascii_db [12288] \<longleftrightarrow>
     list_all isspace [12288]
     \<or> lower ascii_db (strip [12288]) = lit ''echo;''
     \<or> (startswith (lstrip [12288]) (lit ''//'')
         \<and> startswith (lstrip (drop 2 (lstrip [12288]))) (lit ''+'')
         \<and> (42 \<in> set (lstrip (drop 2 (lstrip [12288])))
            \<or> (10 \<le> length (lstrip (drop 2 (lstrip [12288])))
               \<and> 6 * length (lstrip (drop 2 (lstrip [12288])))
                    \<le> 10 * deco_count (lstrip (drop 2 (lstrip [12288])))))))"
proof -
  have h: "\<forall>x. lower ascii_db x = [] \<longleftrightarrow> x = []" by (simp add: ascii_db_def)
  show ?thesis by (rule conjI[OF h block_boundary_iff[OF h]])
qed




text \<open>
  C3.  On the text \<open>a\<close>, newline, form feed, \<open>splitlines\<close> finds two lines in the input
  and one line in the output.
\<close>

theorem line_count_form_feed:
  "format_text ascii_db ff_text default_options = Inr ff_result
   \<and> length (splitlines ff_text) = 2 \<and> length (splitlines (out_text ff_result)) = 1"
  by (simp add: format_text_ff ff_lines) (simp add: ff_result_def splitlines_def str_defs)

text \<open>
  C4.  On the same text, which does not end with a newline, the output ends with one: the
  empty last line is joined after a separator.
\<close>

theorem final_newline_form_feed:
  "format_text ascii_db ff_text default_options = Inr ff_result
   \<and> \<not> endswith ff_text [10] \<and> endswith (out_text ff_result) [10]
   \<and> out_text ff_result = join (newline_of ff_text) [lit ''a'', []]"
  by (simp add: format_text_ff) (simp add: ff_result_def ff_text_def newline_of_def str_defs)

text \<open>
  C2 (as stated).  A line that the signature guard sends back is sent back again by the
  second pass: formatting the output of the first pass reports line 1 once more.
\<close>

theorem idempotence_counterexample:
  "format_text ascii_db nbsp_text default_options = Inr nbsp_result
   \<and> format_text ascii_db (out_text nbsp_result) default_options = Inr nbsp_result
   \<and> sig_fail_lines nbsp_result \<noteq> []"
  using format_text_nbsp by (simp add: nbsp_result_def)

end
